theory Spec2Isabelle
  imports Complex_Main
begin

section \<open>Flappy Bird with a tabular Q-learning agent (flappybird.py)\<close>

text \<open>
  The program is Python 2: \<open>/\<close> on two integers is integer division and \<open>int\<close> on a
  float truncates toward zero. Python floats are modelled by the real numbers, so rounding
  errors of the machine arithmetic are outside this development; Python integers are
  \<open>int\<close>. Output on the terminal (\<open>print\<close>) and drawing are not modelled.
\<close>

subsection \<open>Constants\<close>

definition FPS :: real where "FPS = 60"
definition ANIMATION_SPEED :: real where "ANIMATION_SPEED = 0.18"
definition WIN_WIDTH :: int where "WIN_WIDTH = 284 * 2"
definition WIN_HEIGHT :: int where "WIN_HEIGHT = 512"

definition Bird_WIDTH :: int where "Bird_WIDTH = 32"
definition Bird_HEIGHT :: int where "Bird_HEIGHT = 32"
definition SINK_SPEED :: real where "SINK_SPEED = 0.18"
definition CLIMB_SPEED :: real where "CLIMB_SPEED = 0.3"
definition CLIMB_DURATION :: real where "CLIMB_DURATION = 333.3"

definition PipePair_WIDTH :: int where "PipePair_WIDTH = 80"
definition PIECE_HEIGHT :: int where "PIECE_HEIGHT = 32"
definition ADD_INTERVAL :: real where "ADD_INTERVAL = 3000"

definition frames_to_msec :: "real \<Rightarrow> real" where
  "frames_to_msec frames = 1000.0 * frames / FPS"

definition msec_to_frames :: "real \<Rightarrow> real" where
  "msec_to_frames milliseconds = FPS * milliseconds / 1000.0"

text \<open>Python's \<open>int(r)\<close> on a float: truncation toward zero.\<close>

definition py_int :: "real \<Rightarrow> int" where
  "py_int r = (if 0 \<le> r then \<lfloor>r\<rfloor> else \<lceil>r\<rceil>)"

text \<open>Python's \<open>a % b\<close> on floats with a positive divisor.\<close>

definition py_fmod :: "real \<Rightarrow> real \<Rightarrow> real" where
  "py_fmod a b = a - b * of_int \<lfloor>a / b\<rfloor>"

subsection \<open>The bird\<close>

record Bird =
  bird_x :: real
  bird_y :: real
  msec_to_climb :: real

definition Bird_update :: "real \<Rightarrow> Bird \<Rightarrow> Bird" where
  "Bird_update delta_frames b =
     (if msec_to_climb b > 0 then
        (let frac_climb_done = 1 - msec_to_climb b / CLIMB_DURATION
         in b\<lparr>bird_y := bird_y b - CLIMB_SPEED * frames_to_msec delta_frames *
                             (1 - cos (frac_climb_done * pi)),
               msec_to_climb := msec_to_climb b - frames_to_msec delta_frames\<rparr>)
      else b\<lparr>bird_y := bird_y b + SINK_SPEED * frames_to_msec delta_frames\<rparr>)"

text \<open>The bitmask in use depends on the clock (\<open>Bird.mask\<close>).\<close>

datatype wing = wingup | wingdown

definition Bird_mask :: "nat \<Rightarrow> wing" where
  "Bird_mask ticks = (if ticks mod 500 \<ge> 250 then wingup else wingdown)"

subsection \<open>The two random streams\<close>

text \<open>
  The module \<open>random\<close> has one hidden generator state; the program keeps two saved
  states in the list \<open>random_state\<close> and swaps them in with \<open>random.setstate\<close>.
  The generator itself is a library: its state type \<open>'g\<close>, the function \<open>randint\<close>
  (the drawn value and the state after the draw) and the state that \<open>random.seed(0)\<close>
  installs are parameters of the model, as is pygame's pixel collision test.
\<close>

record 'g rand =
  rng :: 'g
  random_state0 :: 'g
  random_state1 :: 'g

subsection \<open>Pipe pairs\<close>

text \<open>
  \<open>pipe_id\<close> stands for the identity of the Python object (the program compares pipes
  with \<open>is\<close>): every pipe gets a fresh number from the counter \<open>next_id\<close>.
\<close>

record PipePair =
  pipe_id :: nat
  pipe_x :: real
  score_counted :: bool
  bottom_pieces :: int
  top_pieces :: int

record 'g env =
  randint :: "'g \<Rightarrow> int \<Rightarrow> int \<Rightarrow> int \<times> 'g"
  seed0 :: 'g
  collide_mask :: "PipePair \<Rightarrow> Bird \<Rightarrow> wing \<Rightarrow> bool"

definition total_pipe_body_pieces :: int where
  "total_pipe_body_pieces =
     (WIN_HEIGHT - 3 * Bird_HEIGHT - 3 * PIECE_HEIGHT) div PIECE_HEIGHT"

definition PipePair_init :: "'g env \<Rightarrow> nat \<Rightarrow> 'g rand \<Rightarrow> PipePair \<times> 'g rand" where
  "PipePair_init E i R =
     (let R1 = R\<lparr>rng := random_state0 R\<rparr>;
          (b, g) = randint E (rng R1) 1 total_pipe_body_pieces;
          R2 = R1\<lparr>rng := g, random_state0 := g\<rparr>;
          t = total_pipe_body_pieces - b
      in (\<lparr>pipe_id = i, pipe_x = of_int (WIN_WIDTH - 1), score_counted = False,
           bottom_pieces = b + 1, top_pieces = t + 1\<rparr>, R2))"

definition visible :: "PipePair \<Rightarrow> bool" where
  "visible p \<longleftrightarrow> - of_int PipePair_WIDTH < pipe_x p \<and> pipe_x p < of_int WIN_WIDTH"

definition PipePair_update :: "real \<Rightarrow> PipePair \<Rightarrow> PipePair" where
  "PipePair_update delta_frames p =
     p\<lparr>pipe_x := pipe_x p - ANIMATION_SPEED * frames_to_msec delta_frames\<rparr>"

definition collides_with :: "'g env \<Rightarrow> nat \<Rightarrow> Bird \<Rightarrow> PipePair \<Rightarrow> bool" where
  "collides_with E ticks b p = collide_mask E p b (Bird_mask ticks)"

subsection \<open>The value table\<close>

type_synonym qstate = "int \<times> int \<times> bool"
type_synonym table = "qstate \<times> bool \<rightharpoonup> real"

definition dict_get :: "table \<Rightarrow> qstate \<times> bool \<Rightarrow> real \<Rightarrow> real" where
  "dict_get d k dflt = (case d k of None \<Rightarrow> dflt | Some v \<Rightarrow> v)"

definition get_max_reward :: "qstate \<Rightarrow> table \<Rightarrow> bool \<Rightarrow> real" where
  "get_max_reward st d a =
     (if dict_get d (st, a) 0 > dict_get d (st, \<not> a) 0
      then dict_get d (st, a) 0
      else dict_get d (st, \<not> a) 0)"

definition determine_action ::
  "'g env \<Rightarrow> qstate \<Rightarrow> table \<Rightarrow> 'g rand \<Rightarrow> int \<Rightarrow> int \<Rightarrow> bool \<times> 'g rand" where
  "determine_action E st d R sc msc =
     (let R1 = R\<lparr>rng := random_state1 R\<rparr>;
          state_click = dict_get d (st, True) 0;
          state_nothing = dict_get d (st, False) 0;
          (v, g) = randint E (rng R1) 1 10;
          R2 = R1\<lparr>rng := g, random_state1 := g\<rparr>
      in if v < 3 \<and> sc \<ge> msc then
           (let (v2, g2) = randint E (rng R2) 0 1;
                R3 = R2\<lparr>rng := g2, random_state1 := g2\<rparr>
            in if v2 = 1 then (True, R3) else (False, R3))
         else if state_click > state_nothing then (True, R2)
         else (False, R2))"

subsection \<open>The state of \<open>main\<close>\<close>

datatype error = NameError | IndexError

datatype file_text = str_dict table | str_int int

record frame_input =
  quit_event :: bool
  ticks_interval :: nat
  ticks_frame :: nat

text \<open>
  The local variables of \<open>main\<close>. \<open>dead\<close> and \<open>old_pipe\<close> are unbound until their
  first assignment (\<open>None\<close>); \<open>old_pipe\<close> holds the identity of a pipe. \<open>done\<close> is
  \<open>done_flag\<close>. \<open>files\<close> is the contents of the files written so far and
  \<open>next_id\<close> the number of pipe objects created so far.
\<close>

record 'g game =
  dict :: table
  rand :: "'g rand"
  max_score :: int
  bird :: Bird
  pipes :: "PipePair list"
  frame_clock :: nat
  score :: int
  done_flag :: bool
  state :: qstate
  fps_to_next_action :: nat
  action :: bool
  previous_state :: qstate
  early_state :: qstate
  previous_action :: bool
  early_action :: bool
  old_pipe :: "nat option"
  dead :: "bool option"
  files :: "string \<rightharpoonup> file_text"
  next_id :: nat

text \<open>Lines 369 to 410: the start of a life, from what the previous life leaves behind.\<close>

definition start_life ::
  "'g env \<Rightarrow> table \<Rightarrow> int \<Rightarrow> 'g \<Rightarrow> nat option \<Rightarrow> bool option \<Rightarrow> (string \<rightharpoonup> file_text)
     \<Rightarrow> nat \<Rightarrow> 'g game" where
  "start_life E d msc g op dd fs n =
     \<lparr>dict = d,
      rand = \<lparr>rng = seed0 E, random_state0 = seed0 E, random_state1 = g\<rparr>,
      max_score = msc,
      bird = \<lparr>bird_x = 50,
              bird_y = of_int (WIN_HEIGHT div 2 - Bird_HEIGHT div 2),
              msec_to_climb = 2\<rparr>,
      pipes = [],
      frame_clock = 0,
      score = 0,
      done_flag = False,
      state = (240 - 165, 567 - 50, False),
      fps_to_next_action = 0,
      action = False,
      previous_state = (240 - 165, 567 - 50, False),
      early_state = (240 - 165, 567 - 50, False),
      previous_action = False,
      early_action = False,
      old_pipe = op,
      dead = dd,
      files = fs,
      next_id = n\<rparr>"

definition new_life :: "'g env \<Rightarrow> 'g game \<Rightarrow> 'g game" where
  "new_life E s =
     start_life E (dict s) (max_score s) (rng (rand s)) (old_pipe s) (dead s) (files s)
       (next_id s)"

text \<open>Lines 359 to 362 and the first start of a life; \<open>g0\<close> is the generator state
  the interpreter starts with.\<close>

definition main_init :: "'g env \<Rightarrow> 'g \<Rightarrow> 'g game" where
  "main_init E g0 = start_life E Map.empty 0 g0 None None Map.empty 0"

subsection \<open>One frame of the inner loop, in the order of the source\<close>

text \<open>Lines 413 to 420: every 15 frames the agent chooses an action.\<close>

definition choose_phase :: "'g env \<Rightarrow> 'g game \<Rightarrow> 'g game" where
  "choose_phase E s =
     (let s1 =
        (if fps_to_next_action s = 0 then
           (let (a, R) = determine_action E (state s) (dict s) (rand s) (score s) (max_score s);
                s' = s\<lparr>action := a, rand := R\<rparr>
            in if a then s'\<lparr>bird := (bird s')\<lparr>msec_to_climb := CLIMB_DURATION\<rparr>\<rparr> else s')
         else s)
      in s1\<lparr>fps_to_next_action := fps_to_next_action s1 + 1\<rparr>)"

text \<open>Lines 427 to 430: a new pipe every \<open>ADD_INTERVAL\<close> milliseconds (\<open>paused\<close> is
  never set).\<close>

definition spawn_phase :: "'g env \<Rightarrow> 'g game \<Rightarrow> 'g game" where
  "spawn_phase E s =
     (if \<not> (py_fmod (of_nat (frame_clock s)) (msec_to_frames ADD_INTERVAL) \<noteq> 0) then
        (let (pp, R) = PipePair_init E (next_id s) (rand s);
             ps = pipes s @ [pp]
         in s\<lparr>rand := R, pipes := ps, old_pipe := Some (pipe_id (hd ps)),
              next_id := Suc (next_id s)\<rparr>)
      else s)"

text \<open>Lines 432 to 459: every 15 frames the new state is encoded and the value of the
  previous state and action is updated. \<open>pipes[0]\<close> raises on an empty queue.\<close>

definition out_of_bounds :: "Bird \<Rightarrow> bool" where
  "out_of_bounds b \<longleftrightarrow> 0 \<ge> bird_y b \<or> bird_y b \<ge> of_int (WIN_HEIGHT - Bird_HEIGHT)"

definition encode_state :: "Bird \<Rightarrow> PipePair \<Rightarrow> bool \<Rightarrow> qstate" where
  "encode_state b p dd =
     (py_int (bird_y b - of_int (512 - bottom_pieces p * 32 - 27)),
      py_int (pipe_x p - 50), dd)"

definition td_update :: "real \<Rightarrow> table \<Rightarrow> qstate \<times> bool \<Rightarrow> real \<Rightarrow> real \<Rightarrow> table" where
  "td_update gam d k reward max_reward =
     d(k \<mapsto> dict_get d k 0 + 0.7 * (reward + gam * max_reward - dict_get d k 0))"

definition interval_phase :: "'g env \<Rightarrow> frame_input \<Rightarrow> 'g game \<Rightarrow> error + 'g game" where
  "interval_phase E inp s =
     (if fps_to_next_action s = 15 then
        (let dd = (\<exists>p \<in> set (pipes s). collides_with E (ticks_interval inp) (bird s) p)
                   \<or> out_of_bounds (bird s)
         in case pipes s of
              [] \<Rightarrow> Inl IndexError
            | p0 # _ \<Rightarrow>
                (let new_state = encode_state (bird s) p0 dd;
                     reward = (if dd then - 1000 else 1);
                     max_reward = get_max_reward (state s) (dict s) (action s)
                 in Inr (s\<lparr>dead := Some dd,
                           done_flag := (done_flag s \<or> dd),
                           dict := td_update 0.9 (dict s) (previous_state s, previous_action s)
                                     reward max_reward,
                           early_state := previous_state s,
                           early_action := previous_action s,
                           previous_state := state s,
                           previous_action := action s,
                           state := new_state,
                           fps_to_next_action := 0\<rparr>)))
      else Inr s)"

text \<open>Lines 468 to 480: the bonus for the pair of two intervals ago when the front pipe
  is no longer the remembered one and the score beats the record.\<close>

definition bonus_phase :: "'g game \<Rightarrow> error + 'g game" where
  "bonus_phase s =
     (case old_pipe s of
        None \<Rightarrow> Inl NameError
      | Some op \<Rightarrow>
          (case pipes s of
             [] \<Rightarrow> Inl IndexError
           | p0 # _ \<Rightarrow>
               if op \<noteq> pipe_id p0 \<and> score s > max_score s then
                 (case dead s of
                    None \<Rightarrow> Inl NameError
                  | Some dd \<Rightarrow>
                      if dd \<noteq> True then
                        Inr (s\<lparr>dict := (dict s)((early_state s, early_action s) \<mapsto>
                                        dict_get (dict s) (early_state s, early_action s) 0 + 100),
                               old_pipe := Some (pipe_id p0)\<rparr>)
                      else Inr s)
               else Inr s))"

text \<open>Lines 484 to 494: a quit event sets \<open>done\<close> and writes the two files.\<close>

definition event_phase :: "frame_input \<Rightarrow> 'g game \<Rightarrow> 'g game" where
  "event_phase inp s =
     (if quit_event inp then
        s\<lparr>done_flag := True,
          files := (files s)(''foo.txt'' \<mapsto> str_dict (dict s),
                             ''max_score.txt'' \<mapsto> str_int (max_score s))\<rparr>
      else s)"

text \<open>Lines 505 to 538: the collision check of every frame.\<close>

definition death_phase :: "'g env \<Rightarrow> frame_input \<Rightarrow> 'g game \<Rightarrow> 'g game" where
  "death_phase E inp s =
     (let pipe_collision = (\<exists>p \<in> set (pipes s). collides_with E (ticks_frame inp) (bird s) p)
      in if pipe_collision \<or> out_of_bounds (bird s) then
           (let d1 = (dict s)((state s, action s) \<mapsto> - 1000);
                reward = - 1000;
                max_reward = get_max_reward (state s) d1 (action s);
                d2 = td_update 0.75 d1 (previous_state s, previous_action s) reward max_reward
            in s\<lparr>done_flag := True, dict := d2,
                  max_score := (if score s > max_score s then score s else max_score s)\<rparr>)
         else s)"

text \<open>Lines 547 to 561 and 568: pipes off the screen are dropped from the front, all
  pipes and the bird move, passed pipes are counted.\<close>

definition pop_invisible :: "PipePair list \<Rightarrow> PipePair list" where
  "pop_invisible ps = dropWhile (\<lambda>p. \<not> visible p) ps"

definition passed :: "Bird \<Rightarrow> PipePair \<Rightarrow> bool" where
  "passed b p \<longleftrightarrow> pipe_x p + of_int PipePair_WIDTH < bird_x b \<and> \<not> score_counted p"

definition world_phase :: "'g game \<Rightarrow> 'g game" where
  "world_phase s =
     (let ps = map (PipePair_update 1) (pop_invisible (pipes s));
          b = Bird_update 1 (bird s)
      in s\<lparr>pipes := map (\<lambda>p. if passed b p then p\<lparr>score_counted := True\<rparr> else p) ps,
            bird := b,
            score := score s + int (length (filter (passed b) ps)),
            frame_clock := frame_clock s + 1\<rparr>)"

definition frame :: "'g env \<Rightarrow> frame_input \<Rightarrow> 'g game \<Rightarrow> error + 'g game" where
  "frame E inp s =
     (case interval_phase E inp (spawn_phase E (choose_phase E s)) of
        Inl e \<Rightarrow> Inl e
      | Inr s1 \<Rightarrow>
          (case bonus_phase s1 of
             Inl e \<Rightarrow> Inl e
           | Inr s2 \<Rightarrow> Inr (world_phase (death_phase E inp (event_phase inp s2)))))"

text \<open>
  The two loops of \<open>main\<close>, run on a finite prefix of the frames' inputs: the inner
  loop runs while \<open>done\<close> is false, and the outer \<open>while(1)\<close> then starts the next
  life. \<open>main\<close> has no other exit.
\<close>

fun run :: "'g env \<Rightarrow> frame_input list \<Rightarrow> 'g game \<Rightarrow> error + 'g game" where
  "run E [] s = Inr s"
| "run E (inp # inps) s =
     (case frame E inp (if done_flag s then new_life E s else s) of
        Inl e \<Rightarrow> Inl e
      | Inr s' \<Rightarrow> run E inps s')"

definition main :: "'g env \<Rightarrow> 'g \<Rightarrow> frame_input list \<Rightarrow> error + 'g game" where
  "main E g0 inps = run E inps (main_init E g0)"

subsection \<open>A scripted generator, for running the model on concrete inputs\<close>

text \<open>The state is the list of the values still to be drawn, clamped into the range asked
  for; an exhausted script draws the lower bound.\<close>

definition scripted_randint :: "int list \<Rightarrow> int \<Rightarrow> int \<Rightarrow> int \<times> int list" where
  "scripted_randint g a b = (case g of [] \<Rightarrow> (a, []) | v # vs \<Rightarrow> (min b (max a v), vs))"

definition test_env :: "int list env" where
  "test_env = \<lparr>randint = scripted_randint, seed0 = [9, 4], collide_mask = (\<lambda>p b w. False)\<rparr>"

definition no_input :: frame_input where
  "no_input = \<lparr>quit_event = False, ticks_interval = 0, ticks_frame = 0\<rparr>"

definition quit_input :: frame_input where
  "quit_input = \<lparr>quit_event = True, ticks_interval = 0, ticks_frame = 0\<rparr>"

text \<open>A state as on the fifteenth frame of a first life in which the agent never clicked
  (the bird's height rounded to a whole pixel), before the interval's update.\<close>

definition frame14 :: "int list game" where
  "frame14 = (main_init test_env [5])
     \<lparr>rand := \<lparr>rng = [4], random_state0 = [4], random_state1 = []\<rparr>,
      bird := \<lparr>bird_x = 50, bird_y = 269, msec_to_climb = - 44 / 3\<rparr>,
      pipes := [\<lparr>pipe_id = 0, pipe_x = 525, score_counted = False,
                 bottom_pieces = 10, top_pieces = 2\<rparr>],
      frame_clock := 14, fps_to_next_action := 15, old_pipe := Some 0, next_id := 1\<rparr>"

subsection \<open>Concrete states for the counterexamples\<close>

text \<open>The 181st frame of a life, before the new pipe is added: the first pipe has moved
  180 times, from 567 to 27 (the other variables play no part in what follows).\<close>

definition frame180 :: "int list game" where
  "frame180 = frame14
     \<lparr>pipes := [\<lparr>pipe_id = 0, pipe_x = 27, score_counted = False,
                 bottom_pieces = 10, top_pieces = 2\<rparr>],
      frame_clock := 180, fps_to_next_action := 1\<rparr>"

text \<open>The bird on the 30th frame of a life whose only click was on the first frame:
  29 updates after the climb was triggered at the start height. The front pipe then.\<close>

definition bird29 :: Bird where
  "bird29 = (Bird_update 1 ^^ 29) ((bird (main_init test_env []))\<lparr>msec_to_climb := CLIMB_DURATION\<rparr>)"

definition pipe29 :: PipePair where
  "pipe29 = \<lparr>pipe_id = 0, pipe_x = 480, score_counted = False, bottom_pieces = 10, top_pieces = 2\<rparr>"

subsection \<open>Invariants of the loop\<close>

text \<open>What a frame does to the queue: off-screen pipes dropped, all moved, passed ones
  marked.\<close>

definition moved :: "Bird \<Rightarrow> PipePair list \<Rightarrow> PipePair list" where
  "moved b ps = map (\<lambda>p. if passed b p then p\<lparr>score_counted := True\<rparr> else p)
                  (map (PipePair_update 1) (pop_invisible ps))"

text \<open>The climb timer undershoots zero by less than one frame.\<close>

definition timer_inv :: "Bird \<Rightarrow> bool" where
  "timer_inv b \<longleftrightarrow> - frames_to_msec 1 < msec_to_climb b \<and> msec_to_climb b \<le> CLIMB_DURATION"

text \<open>The number of pipes created in the first \<open>fc\<close> frames of a life.\<close>

definition spawned :: "nat \<Rightarrow> nat" where
  "spawned fc = length (filter (\<lambda>i. i mod 180 = 0) [0..<fc])"

text \<open>What keeps \<open>pipes[0]\<close>, \<open>old_pipe\<close> and \<open>dead\<close> from raising: after the first
  frame the queue is not empty, its last pipe is on the screen, and as long as \<open>dead\<close> is
  unbound the remembered pipe is the only one.\<close>

definition safe :: "'g game \<Rightarrow> bool" where
  "safe s \<longleftrightarrow>
     (frame_clock s = 0 \<longrightarrow> pipes s = [])
   \<and> (0 < frame_clock s \<longrightarrow>
        pipes s \<noteq> [] \<and> old_pipe s \<noteq> None
        \<and> pipe_x (last (pipes s)) = 567 - 3 * real ((frame_clock s - 1) mod 180 + 1))
   \<and> (dead s = None \<longrightarrow>
        frame_clock s \<le> 14 \<and> fps_to_next_action s = frame_clock s
        \<and> (0 < frame_clock s \<longrightarrow> (\<exists>p. pipes s = [p] \<and> old_pipe s = Some (pipe_id p))))"

text \<open>The queue from front to back: positions and identities increase.\<close>

definition queue_inv :: "'g game \<Rightarrow> bool" where
  "queue_inv s \<longleftrightarrow>
     sorted_wrt (<) (map pipe_x (pipes s)) \<and> (\<forall>p \<in> set (pipes s). pipe_x p < 567)
   \<and> sorted_wrt (<) (map pipe_id (pipes s)) \<and> (\<forall>p \<in> set (pipes s). pipe_id p < next_id s)"

text \<open>The obstacle stream after \<open>n\<close> draws from the seed, the gap of the \<open>k\<close>-th pipe of
  a life drawn from it, and the indices of the pipes in the queue.\<close>

fun seeded_stream :: "'g env \<Rightarrow> nat \<Rightarrow> 'g" where
  "seeded_stream E 0 = seed0 E"
| "seeded_stream E (Suc n) = snd (randint E (seeded_stream E n) 1 total_pipe_body_pieces)"

definition gap_of_seed :: "'g env \<Rightarrow> nat \<Rightarrow> int" where
  "gap_of_seed E k = fst (randint E (seeded_stream E k) 1 total_pipe_body_pieces) + 1"

definition window :: "nat \<Rightarrow> nat \<Rightarrow> nat list" where
  "window fc len = [spawned fc - len ..< spawned fc]"

definition layout_inv :: "'g env \<Rightarrow> 'g game \<Rightarrow> bool" where
  "layout_inv E s \<longleftrightarrow>
     random_state0 (rand s) = seeded_stream E (spawned (frame_clock s))
   \<and> length (pipes s) \<le> spawned (frame_clock s)
   \<and> map bottom_pieces (pipes s)
       = map (gap_of_seed E) [spawned (frame_clock s) - length (pipes s) ..< spawned (frame_clock s)]"

text \<open>The angle by which the climb advances in one frame.\<close>

definition theta :: real where
  "theta = 500 * pi / 9999"


subsection \<open>The loop head and the middle of a frame\<close>

text \<open>The state with which the inner loop is entered (the outer loop starts a new life
  first when \<open>done\<close> is set), and the state before the interval block of a frame, after
  the choice of the action and the spawn.\<close>

definition loop_head :: "'g env \<Rightarrow> 'g game \<Rightarrow> 'g game" where
  "loop_head E s = (if done_flag s then new_life E s else s)"

definition before_interval :: "'g env \<Rightarrow> 'g game \<Rightarrow> 'g game" where
  "before_interval E t = spawn_phase E (choose_phase E t)"

text \<open>Between frames the counter of the decision interval is the frame clock modulo 15.\<close>

definition interval_inv :: "'g game \<Rightarrow> bool" where
  "interval_inv s \<longleftrightarrow> fps_to_next_action s = frame_clock s mod 15"

subsection \<open>The decisions of a run\<close>

text \<open>
  The state and action pairs of the decision intervals of the current life, oldest first,
  as the run went through them: a life starts with the initial pair twice (lines 402 to
  409), and the fifteenth frame of every interval adds the state and the action that were
  in use during that interval. The last element is the pair of the interval just finished,
  the one before it the pair of the interval before that.
\<close>

definition initial_pairs :: "(qstate \<times> bool) list" where
  "initial_pairs = [((240 - 165, 567 - 50, False), False), ((240 - 165, 567 - 50, False), False)]"

fun recorded ::
  "'g env \<Rightarrow> frame_input list \<Rightarrow> 'g game \<Rightarrow> (qstate \<times> bool) list \<Rightarrow> (qstate \<times> bool) list" where
  "recorded E [] s h = h"
| "recorded E (inp # inps) s h =
     (let t = loop_head E s;
          h0 = (if done_flag s then initial_pairs else h);
          c = before_interval E t;
          h1 = (if frame_clock t mod 15 = 14 then h0 @ [(state c, action c)] else h0)
      in case frame E inp t of Inl e \<Rightarrow> h1 | Inr s' \<Rightarrow> recorded E inps s' h1)"

definition history :: "'g env \<Rightarrow> 'g \<Rightarrow> frame_input list \<Rightarrow> (qstate \<times> bool) list" where
  "history E g0 inps = recorded E inps (main_init E g0) initial_pairs"

text \<open>The variables \<open>previous_*\<close> and \<open>early_*\<close> hold the last two recorded pairs.\<close>

definition pairs_inv :: "'g game \<Rightarrow> (qstate \<times> bool) list \<Rightarrow> bool" where
  "pairs_inv s h \<longleftrightarrow>
     2 \<le> length h
   \<and> (early_state s, early_action s) = h ! (length h - 2)
   \<and> (previous_state s, previous_action s) = last h"

text \<open>The remembered pipe is the front of the queue or an older pipe.\<close>

definition old_front :: "'g game \<Rightarrow> bool" where
  "old_front s \<longleftrightarrow>
     (0 < frame_clock s \<longrightarrow> (\<exists>op. old_pipe s = Some op \<and> op \<le> pipe_id (hd (pipes s))))"

subsection \<open>A run in which the bird stays in the air\<close>

text \<open>
  The exploration draws of the frames \<open>n\<close> to \<open>n + m - 1\<close> of a life: every decision
  (every 15th frame) draws 1 from 1 to 10, so it explores, and then draws 1 (click) on
  every 60th frame and 0 on the other decisions.
\<close>

fun hover_script :: "nat \<Rightarrow> nat \<Rightarrow> int list" where
  "hover_script n 0 = []"
| "hover_script n (Suc m) =
     (if n mod 15 = 0 then [1, if n mod 60 = 0 then 1 else 0] else []) @ hover_script (Suc n) m"

text \<open>The bird of that run before frame \<open>n\<close>: a click on every 60th frame.\<close>

fun hover_bird :: "nat \<Rightarrow> Bird" where
  "hover_bird 0 = \<lparr>bird_x = 50, bird_y = 240, msec_to_climb = 2\<rparr>"
| "hover_bird (Suc n) =
     Bird_update 1 (if n mod 60 = 0 then (hover_bird n)\<lparr>msec_to_climb := CLIMB_DURATION\<rparr>
                    else hover_bird n)"

text \<open>The first two pipes of that run before frame \<open>n\<close> (the seeded script of
  \<open>test_env\<close> gives them 10 and 5 bottom pieces); the first is counted on frame 199.
  The queue before frame \<open>n\<close>, and in the middle of frame \<open>n\<close>, after the spawn.\<close>

definition hover_p0 :: "nat \<Rightarrow> PipePair" where
  "hover_p0 n = \<lparr>pipe_id = 0, pipe_x = 567 - 3 * real n, score_counted = (200 \<le> n),
                 bottom_pieces = 10, top_pieces = 2\<rparr>"

definition hover_p1 :: "nat \<Rightarrow> PipePair" where
  "hover_p1 n = \<lparr>pipe_id = 1, pipe_x = 1107 - 3 * real n, score_counted = False,
                 bottom_pieces = 5, top_pieces = 7\<rparr>"

definition hover_pipes :: "nat \<Rightarrow> PipePair list" where
  "hover_pipes n = (if n = 0 then [] else if n \<le> 180 then [hover_p0 n]
                    else if n \<le> 216 then [hover_p0 n, hover_p1 n] else [hover_p1 n])"

definition hover_queue :: "nat \<Rightarrow> PipePair list" where
  "hover_queue n = (if n < 180 then [hover_p0 n] else [hover_p0 n, hover_p1 n])"

text \<open>The state of that run before frame \<open>n\<close>, for \<open>n\<close> up to 217.\<close>

definition hover_inv :: "nat \<Rightarrow> int list game \<Rightarrow> bool" where
  "hover_inv n s \<longleftrightarrow>
     frame_clock s = n \<and> \<not> done_flag s \<and> bird s = hover_bird n \<and> pipes s = hover_pipes n
   \<and> score s = (if n < 200 then 0 else 1) \<and> max_score s = 0
   \<and> old_pipe s = (if n = 0 then None else Some 0)
   \<and> dead s = (if n < 15 then None else Some False)
   \<and> random_state1 (rand s) = hover_script n (217 - n)
   \<and> random_state0 (rand s) = (if n = 0 then [9, 4] else if n \<le> 180 then [4] else [])
   \<and> next_id s = (if n = 0 then 0 else if n \<le> 180 then 1 else 2)
   \<and> fps_to_next_action s = n mod 15
   \<and> (n < 15 \<longrightarrow> dict s = Map.empty \<and> state s = (75, 517, False)
                 \<and> previous_state s = (75, 517, False) \<and> \<not> previous_action s)"

text \<open>The height gained by one whole climb of 20 frames.\<close>

definition climb_height :: real where
  "climb_height = 5 * (\<Sum>k<20. 1 - cos (real k * theta))"


section \<open>Properties\<close>

subsection \<open>The agent\<close>

lemma get_max_reward_max:
  "get_max_reward st d a = max (dict_get d (st, True) 0) (dict_get d (st, False) 0)"
  by (cases a) (auto simp: get_max_reward_def max_def)



text \<open>
  C3. Below the best score the choice is the greedy one: ascend exactly when the entry for
  ascending is strictly larger than the entry for doing nothing (absent entries read as
  \<open>0\<close>). From the best score on, a first draw \<open>v\<close> from 1 to 10 with \<open>v < 3\<close> (2 of the 10
  values) replaces the greedy choice by a second draw from 0 to 1, which ascends on 1 (1 of
  the 2 values).
\<close>

theorem determine_action_choice:
  "(sc < msc \<longrightarrow>
      fst (determine_action E st d R sc msc)
        = (dict_get d (st, True) 0 > dict_get d (st, False) 0))
   \<and> (sc \<ge> msc \<longrightarrow>
      fst (determine_action E st d R sc msc)
        = (let (v, g) = randint E (random_state1 R) 1 10
           in if v < 3 then fst (randint E g 0 1) = 1
              else dict_get d (st, True) 0 > dict_get d (st, False) 0))
   \<and> card {v \<in> {1..10::int}. v < 3} * 10 = 2 * card {1..10::int}
   \<and> card {v \<in> {0..1::int}. v = 1} * 2 = card {0..1::int}"
proof -
  have a: "{v \<in> {1..10::int}. v < 3} = {1, 2}" by auto
  have b: "{v \<in> {0..1::int}. v = 1} = {1}" by auto
  show ?thesis
    unfolding a b
    by (auto simp: determine_action_def Let_def split: prod.splits)
qed

theorem determine_action_choice_witness:
  "(0::int) < 1
   \<and> fst (determine_action test_env (75, 517, False) [((75, 517, False), True) \<mapsto> 1]
            \<lparr>rng = [], random_state0 = [], random_state1 = [1, 1]\<rparr> 0 1) = True
   \<and> (1::int) \<ge> 0
   \<and> fst (determine_action test_env (75, 517, False) [((75, 517, False), True) \<mapsto> 1]
            \<lparr>rng = [], random_state0 = [], random_state1 = [1, 0]\<rparr> 1 0) = False"
  using determine_action_choice [of 0 1 test_env "(75, 517, False)"
          "[((75, 517, False), True) \<mapsto> 1]"
          "\<lparr>rng = [], random_state0 = [], random_state1 = [1, 1]\<rparr>"]
        determine_action_choice [of 1 0 test_env "(75, 517, False)"
          "[((75, 517, False), True) \<mapsto> 1]"
          "\<lparr>rng = [], random_state0 = [], random_state1 = [1, 0]\<rparr>"]
  by (simp add: test_env_def scripted_randint_def dict_get_def)

text \<open>
  C10. \<open>determine_action\<close> leaves element 0 of \<open>random_state\<close> as it is, its result and its
  new element 1 depend on the old element 1 only, and element 1 is advanced by the draw
  from 1 to 10, followed by the draw from 0 to 1 exactly when the first draw is below 3 and
  the score has reached the best score. Creating a pipe leaves element 1 as it is, takes
  its gap from element 0 only, and advances element 0 by exactly one draw.
\<close>

theorem random_streams_frame:
  "random_state0 (snd (determine_action E st d R sc msc)) = random_state0 R
   \<and> (random_state1 R' = random_state1 R \<longrightarrow>
        fst (determine_action E st d R' sc msc) = fst (determine_action E st d R sc msc)
        \<and> random_state1 (snd (determine_action E st d R' sc msc))
            = random_state1 (snd (determine_action E st d R sc msc)))
   \<and> random_state1 (snd (determine_action E st d R sc msc))
       = (let (v, g) = randint E (random_state1 R) 1 10
          in if v < 3 \<and> sc \<ge> msc then snd (randint E g 0 1) else g)
   \<and> (sc < msc \<longrightarrow> random_state1 (snd (determine_action E st d R sc msc))
                      = snd (randint E (random_state1 R) 1 10))
   \<and> random_state1 (snd (PipePair_init E i R)) = random_state1 R
   \<and> random_state0 (snd (PipePair_init E i R))
       = snd (randint E (random_state0 R) 1 total_pipe_body_pieces)
   \<and> (random_state0 R' = random_state0 R \<longrightarrow>
        fst (PipePair_init E i R') = fst (PipePair_init E i R))"
  by (auto simp: determine_action_def PipePair_init_def Let_def split: prod.splits)

theorem random_streams_frame_witness:
  "random_state1 \<lparr>rng = [7], random_state0 = [], random_state1 = [1, 1]\<rparr>
     = random_state1 \<lparr>rng = [], random_state0 = [9], random_state1 = [1, 1]\<rparr>
   \<and> fst (determine_action test_env (75, 517, False) Map.empty
            \<lparr>rng = [7], random_state0 = [], random_state1 = [1, 1]\<rparr> 0 0) = True
   \<and> (0::int) < 1
   \<and> random_state1 (snd (determine_action test_env (75, 517, False) Map.empty
            \<lparr>rng = [], random_state0 = [9], random_state1 = [1, 1]\<rparr> 0 1)) = [1]
   \<and> random_state0 \<lparr>rng = [7], random_state0 = [9], random_state1 = [1, 1]\<rparr>
     = random_state0 \<lparr>rng = [], random_state0 = [9], random_state1 = []\<rparr>
   \<and> bottom_pieces (fst (PipePair_init test_env 0
            \<lparr>rng = [7], random_state0 = [9], random_state1 = [1, 1]\<rparr>)) = 10"
  using random_streams_frame [of test_env "(75, 517, False)" Map.empty
          "\<lparr>rng = [], random_state0 = [9], random_state1 = [1, 1]\<rparr>" 0 0
          "\<lparr>rng = [7], random_state0 = [], random_state1 = [1, 1]\<rparr>" 0]
        random_streams_frame [of test_env "(75, 517, False)" Map.empty
          "\<lparr>rng = [], random_state0 = [9], random_state1 = [1, 1]\<rparr>" 0 1
          "\<lparr>rng = [7], random_state0 = [9], random_state1 = [1, 1]\<rparr>" 0]
  by (simp add: test_env_def scripted_randint_def determine_action_def PipePair_init_def
        dict_get_def total_pipe_body_pieces_def WIN_HEIGHT_def Bird_HEIGHT_def PIECE_HEIGHT_def)

subsection \<open>What a frame changes\<close>

lemma msec_to_frames_interval: "msec_to_frames ADD_INTERVAL = 180"
  by (simp add: msec_to_frames_def ADD_INTERVAL_def FPS_def)

lemma py_fmod_180: "py_fmod (of_nat n) 180 = of_nat (n mod 180)"
proof -
  have "\<lfloor>(of_nat n :: real) / of_nat 180\<rfloor> = of_nat (n div 180)"
    by (rule floor_divide_of_nat_eq)
  then have f: "\<lfloor>(of_nat n :: real) / 180\<rfloor> = int (n div 180)"
    by simp
  have a: "py_fmod (real n) 180 = real n - 180 * real (n div 180)"
    by (simp add: py_fmod_def f)
  have "real n = real (180 * (n div 180) + n mod 180)"
    by simp
  then have b: "real n = 180 * real (n div 180) + real (n mod 180)"
    by (simp only: of_nat_add of_nat_mult of_nat_numeral)
  show ?thesis
    using a b by linarith
qed

lemma spawn_cond:
  "(py_fmod (of_nat n) (msec_to_frames ADD_INTERVAL) = 0) = (n mod 180 = 0)"
  by (simp add: msec_to_frames_interval py_fmod_180)

lemma frames_to_msec_1: "frames_to_msec 1 = 50 / 3"
  by (simp add: frames_to_msec_def FPS_def)

lemma pipe_step: "ANIMATION_SPEED * frames_to_msec 1 = 3"
  by (simp add: ANIMATION_SPEED_def frames_to_msec_1)

lemma determine_action_state0:
  "random_state0 (snd (determine_action E st d R sc msc)) = random_state0 R"
  by (auto simp: determine_action_def Let_def split: prod.splits)

lemma choose_phase_fields:
  "pipes (choose_phase E s) = pipes s"
  "frame_clock (choose_phase E s) = frame_clock s"
  "next_id (choose_phase E s) = next_id s"
  "old_pipe (choose_phase E s) = old_pipe s"
  "dead (choose_phase E s) = dead s"
  "score (choose_phase E s) = score s"
  "max_score (choose_phase E s) = max_score s"
  "fps_to_next_action (choose_phase E s) = Suc (fps_to_next_action s)"
  by (simp_all add: choose_phase_def Let_def split: prod.splits)

lemma choose_phase_state0:
  "random_state0 (rand (choose_phase E s)) = random_state0 (rand s)"
  using determine_action_state0 [of E "state s" "dict s" "rand s" "score s" "max_score s"]
  by (auto simp: choose_phase_def Let_def split: prod.splits)

lemma choose_phase_timer:
  "msec_to_climb (bird (choose_phase E s)) = msec_to_climb (bird s)
   \<or> msec_to_climb (bird (choose_phase E s)) = CLIMB_DURATION"
  by (simp add: choose_phase_def Let_def split: prod.splits)

lemma spawn_phase_fields:
  "bird (spawn_phase E s) = bird s"
  "frame_clock (spawn_phase E s) = frame_clock s"
  "dead (spawn_phase E s) = dead s"
  "score (spawn_phase E s) = score s"
  "max_score (spawn_phase E s) = max_score s"
  "fps_to_next_action (spawn_phase E s) = fps_to_next_action s"
  by (simp_all add: spawn_phase_def Let_def split: prod.splits)

lemma spawn_phase_pipes:
  "pipes (spawn_phase E s) =
     (if frame_clock s mod 180 = 0
      then pipes s @ [fst (PipePair_init E (next_id s) (rand s))] else pipes s)"
  "random_state0 (rand (spawn_phase E s)) =
     (if frame_clock s mod 180 = 0
      then snd (randint E (random_state0 (rand s)) 1 total_pipe_body_pieces)
      else random_state0 (rand s))"
  "next_id (spawn_phase E s) =
     (if frame_clock s mod 180 = 0 then Suc (next_id s) else next_id s)"
  "old_pipe (spawn_phase E s) =
     (if frame_clock s mod 180 = 0
      then Some (pipe_id (hd (pipes s @ [fst (PipePair_init E (next_id s) (rand s))])))
      else old_pipe s)"
  by (simp_all add: spawn_phase_def spawn_cond PipePair_init_def Let_def split: prod.splits)

lemma PipePair_init_fields:
  "pipe_x (fst (PipePair_init E i R)) = 567"
  "pipe_id (fst (PipePair_init E i R)) = i"
  "bottom_pieces (fst (PipePair_init E i R))
     = fst (randint E (random_state0 R) 1 total_pipe_body_pieces) + 1"
  by (simp_all add: PipePair_init_def Let_def WIN_WIDTH_def split: prod.splits)

lemma interval_phase_fields:
  assumes "interval_phase E inp s = Inr s'"
  shows "bird s' = bird s" "pipes s' = pipes s" "frame_clock s' = frame_clock s"
    "rand s' = rand s" "next_id s' = next_id s" "old_pipe s' = old_pipe s"
    "score s' = score s" "max_score s' = max_score s"
  using assms
  by (auto simp: interval_phase_def Let_def split: if_splits list.splits)

lemma bonus_phase_fields:
  assumes "bonus_phase s = Inr s'"
  shows "bird s' = bird s" "pipes s' = pipes s" "frame_clock s' = frame_clock s"
    "rand s' = rand s" "next_id s' = next_id s" "dead s' = dead s"
    "fps_to_next_action s' = fps_to_next_action s"
  using assms
  by (auto simp: bonus_phase_def split: if_splits list.splits option.splits)

lemma late_phase_fields:
  "bird (death_phase E inp (event_phase inp s)) = bird s"
  "pipes (death_phase E inp (event_phase inp s)) = pipes s"
  "frame_clock (death_phase E inp (event_phase inp s)) = frame_clock s"
  "rand (death_phase E inp (event_phase inp s)) = rand s"
  "next_id (death_phase E inp (event_phase inp s)) = next_id s"
  "dead (death_phase E inp (event_phase inp s)) = dead s"
  "old_pipe (death_phase E inp (event_phase inp s)) = old_pipe s"
  "fps_to_next_action (death_phase E inp (event_phase inp s)) = fps_to_next_action s"
  by (simp_all add: death_phase_def event_phase_def Let_def)

lemma world_phase_fields:
  "bird (world_phase s) = Bird_update 1 (bird s)"
  "pipes (world_phase s) = moved (Bird_update 1 (bird s)) (pipes s)"
  "frame_clock (world_phase s) = Suc (frame_clock s)"
  "rand (world_phase s) = rand s"
  "next_id (world_phase s) = next_id s"
  "dead (world_phase s) = dead s"
  "old_pipe (world_phase s) = old_pipe s"
  "fps_to_next_action (world_phase s) = fps_to_next_action s"
  by (simp_all add: world_phase_def moved_def Let_def)

lemma frame_effect:
  assumes "frame E inp s = Inr s'"
  shows "frame_clock s' = Suc (frame_clock s)"
    and "bird s' = Bird_update 1 (bird (choose_phase E s))"
    and "pipes s' = moved (bird s') (pipes (spawn_phase E (choose_phase E s)))"
    and "random_state0 (rand s') = random_state0 (rand (spawn_phase E (choose_phase E s)))"
    and "next_id s' = next_id (spawn_phase E (choose_phase E s))"
proof -
  from assms obtain s1 s2 where
    i: "interval_phase E inp (spawn_phase E (choose_phase E s)) = Inr s1"
    and b: "bonus_phase s1 = Inr s2"
    and w: "s' = world_phase (death_phase E inp (event_phase inp s2))"
    by (auto simp: frame_def split: sum.splits)
  note f = interval_phase_fields [OF i] bonus_phase_fields [OF b]
  show "frame_clock s' = Suc (frame_clock s)"
    by (simp add: w world_phase_fields late_phase_fields f spawn_phase_fields
          choose_phase_fields)
  show b': "bird s' = Bird_update 1 (bird (choose_phase E s))"
    by (simp add: w world_phase_fields late_phase_fields f spawn_phase_fields)
  show "pipes s' = moved (bird s') (pipes (spawn_phase E (choose_phase E s)))"
    by (simp add: b') (simp add: w world_phase_fields late_phase_fields f spawn_phase_fields)
  show "random_state0 (rand s') = random_state0 (rand (spawn_phase E (choose_phase E s)))"
    by (simp add: w world_phase_fields late_phase_fields f)
  show "next_id s' = next_id (spawn_phase E (choose_phase E s))"
    by (simp add: w world_phase_fields late_phase_fields f)
qed

lemma run_total:
  assumes step: "\<And>inp s. P s \<Longrightarrow> \<exists>s'. frame E inp s = Inr s' \<and> P s'"
    and life: "\<And>s. P s \<Longrightarrow> P (new_life E s)"
    and init: "P s0"
  shows "\<exists>s. run E inps s0 = Inr s \<and> P s"
  using init
proof (induction inps arbitrary: s0)
  case Nil
  then show ?case by simp
next
  case (Cons inp inps)
  let ?t = "if done_flag s0 then new_life E s0 else s0"
  have Pt: "P ?t"
    using Cons.prems life by simp
  from step [OF Pt] obtain s1 where f: "frame E inp ?t = Inr s1" and P1: "P s1"
    by blast
  from Cons.IH [OF P1] f show ?case
    by simp
qed

subsection \<open>The climb timer\<close>

lemma Bird_update_timer: "timer_inv b \<Longrightarrow> timer_inv (Bird_update 1 b)"
  by (auto simp: timer_inv_def Bird_update_def Let_def frames_to_msec_1 CLIMB_DURATION_def)

lemma frame_timer:
  assumes "timer_inv (bird s)" and "frame E inp s = Inr s'"
  shows "timer_inv (bird s')"
proof -
  have "timer_inv (bird (choose_phase E s))"
    using assms(1) choose_phase_timer [of E s]
    by (auto simp: timer_inv_def frames_to_msec_1 CLIMB_DURATION_def)
  then show ?thesis
    by (simp add: frame_effect(2) [OF assms(2)] Bird_update_timer)
qed

lemma new_life_timer: "timer_inv (bird (new_life E s))"
  by (simp add: new_life_def start_life_def timer_inv_def frames_to_msec_1 CLIMB_DURATION_def)

lemma main_init_timer: "timer_inv (bird (main_init E g0))"
  by (simp add: main_init_def start_life_def timer_inv_def frames_to_msec_1 CLIMB_DURATION_def)

subsection \<open>The queue of pipes\<close>

lemma pop_invisible_drop: "pop_invisible ps = drop (length (takeWhile (\<lambda>p. \<not> visible p) ps)) ps"
  by (simp add: pop_invisible_def dropWhile_eq_drop)

lemma moved_map:
  "map pipe_x (moved b ps) = map (\<lambda>p. pipe_x p - 3) (pop_invisible ps)"
  "map pipe_id (moved b ps) = map pipe_id (pop_invisible ps)"
  "map bottom_pieces (moved b ps) = map bottom_pieces (pop_invisible ps)"
  by (simp_all add: moved_def PipePair_update_def pipe_step comp_def)

lemma pop_invisible_last:
  assumes "ps \<noteq> []" and "visible (last ps)"
  shows "pop_invisible ps \<noteq> []" and "last (pop_invisible ps) = last ps"
proof -
  have "last ps \<in> set ps"
    using assms(1) by simp
  then have "\<exists>p \<in> set ps. \<not> \<not> visible p"
    using assms(2) by auto
  then show ne: "pop_invisible ps \<noteq> []"
    by (simp add: pop_invisible_def dropWhile_eq_Nil_conv)
  have "ps = takeWhile (\<lambda>p. \<not> visible p) ps @ pop_invisible ps"
    by (simp add: pop_invisible_def)
  then have "last ps = last (takeWhile (\<lambda>p. \<not> visible p) ps @ pop_invisible ps)"
    by simp
  then show "last (pop_invisible ps) = last ps"
    using ne by simp
qed

lemma moved_last:
  assumes "ps \<noteq> []" and "visible (last ps)"
  shows "moved b ps \<noteq> []" and "pipe_x (last (moved b ps)) = pipe_x (last ps) - 3"
proof -
  note l = pop_invisible_last [OF assms]
  show ne: "moved b ps \<noteq> []"
    using l(1) by (simp add: moved_def)
  have "pipe_x (last (moved b ps)) = last (map pipe_x (moved b ps))"
    using ne by (simp add: last_map)
  also have "\<dots> = last (map (\<lambda>p. pipe_x p - 3) (pop_invisible ps))"
    by (simp only: moved_map)
  also have "\<dots> = pipe_x (last ps) - 3"
    using l by (simp add: last_map)
  finally show "pipe_x (last (moved b ps)) = pipe_x (last ps) - 3" .
qed

lemma moved_single:
  assumes "visible p"
  shows "\<exists>p'. moved b [p] = [p'] \<and> pipe_id p' = pipe_id p"
  using assms by (simp add: moved_def pop_invisible_def PipePair_update_def)

lemma mod_pred_180: "0 < n mod 180 \<Longrightarrow> (n - 1) mod 180 + 1 = (n::nat) mod 180"
  by (cases n) (auto simp: mod_Suc split: if_splits)

lemma spawned_Suc: "spawned (Suc fc) = (if fc mod 180 = 0 then Suc (spawned fc) else spawned fc)"
  by (simp add: spawned_def)

lemma spawned_0: "spawned 0 = 0"
  by (simp add: spawned_def)

subsection \<open>\<open>main\<close> never raises\<close>

lemma interval_phase_dead:
  assumes "interval_phase E inp s = Inr s'"
  shows "fps_to_next_action s = 15 \<Longrightarrow> dead s' \<noteq> None"
    and "fps_to_next_action s \<noteq> 15 \<Longrightarrow> s' = s"
  using assms
  by (auto simp: interval_phase_def Let_def split: if_splits list.splits)

lemma interval_phase_total:
  "pipes s \<noteq> [] \<Longrightarrow> \<exists>s'. interval_phase E inp s = Inr s'"
  by (cases "pipes s") (simp_all add: interval_phase_def Let_def)

lemma bonus_phase_old_pipe:
  assumes "bonus_phase s = Inr s'"
  shows "old_pipe s' = old_pipe s \<or> old_pipe s' = Some (pipe_id (hd (pipes s)))"
  using assms
  by (auto simp: bonus_phase_def split: if_splits list.splits option.splits)

lemma bonus_phase_total:
  assumes "old_pipe s = Some op" and "pipes s = p0 # ps"
    and "dead s = None \<Longrightarrow> op = pipe_id p0"
  shows "\<exists>s'. bonus_phase s = Inr s'"
  using assms by (cases "dead s") (auto simp: bonus_phase_def)

lemma safe_new_life: "safe s \<Longrightarrow> safe (new_life E s)"
  by (simp add: safe_def new_life_def start_life_def)

lemma safe_main_init: "safe (main_init E g0)"
  by (simp add: safe_def main_init_def start_life_def)

lemma visible_last:
  fixes n :: nat
  assumes "pipe_x p = 567 - 3 * real (n mod 180 + 1) \<or> pipe_x p = 567"
  shows "visible p"
proof -
  have "n mod 180 < 180" by simp
  then have "real (n mod 180 + 1) \<le> 180"
    by (metis Suc_eq_plus1 Suc_leI of_nat_le_iff of_nat_numeral)
  then show ?thesis
    using assms by (auto simp: visible_def PipePair_WIDTH_def WIN_WIDTH_def)
qed

lemma frame_safe:
  assumes s: "safe s"
  shows "\<exists>s'. frame E inp s = Inr s' \<and> safe s'"
proof -
  let ?c = "choose_phase E s"
  let ?p = "spawn_phase E ?c"
  let ?n = "frame_clock s"
  let ?pp = "fst (PipePair_init E (next_id s) (rand ?c))"
  have fc: "frame_clock ?c = ?n" "pipes ?c = pipes s" "old_pipe ?c = old_pipe s"
    "dead ?c = dead s" "next_id ?c = next_id s"
    "fps_to_next_action ?c = Suc (fps_to_next_action s)"
    by (simp_all add: choose_phase_fields)
  have pp: "pipes ?p = (if ?n mod 180 = 0 then pipes s @ [?pp] else pipes s)"
    and po: "old_pipe ?p = (if ?n mod 180 = 0 then Some (pipe_id (hd (pipes s @ [?pp])))
                            else old_pipe s)"
    by (simp_all add: spawn_phase_pipes fc)
  have pf: "dead ?p = dead s" "fps_to_next_action ?p = Suc (fps_to_next_action s)"
    "frame_clock ?p = ?n"
    by (simp_all add: spawn_phase_fields fc)
  have pne: "pipes ?p \<noteq> []"
    using s by (cases "?n = 0") (auto simp: pp safe_def)
  have pol: "old_pipe ?p \<noteq> None"
    using s by (cases "?n = 0") (auto simp: po safe_def)
  have plast: "pipe_x (last (pipes ?p)) =
                 (if ?n mod 180 = 0 then 567 else 567 - 3 * real ((?n - 1) mod 180 + 1))"
    using s by (cases "?n = 0") (auto simp: pp safe_def PipePair_init_fields)
  have pvis: "visible (last (pipes ?p))"
    by (rule visible_last [of _ "?n - 1"]) (simp add: plast)
  have single: "\<exists>p. pipes ?p = [p] \<and> old_pipe ?p = Some (pipe_id p) \<and> ?n \<le> 14
                  \<and> fps_to_next_action s = ?n"
    if "dead s = None"
  proof (cases "?n = 0")
    case True
    then show ?thesis
      using s that by (auto simp: pp po safe_def)
  next
    case False
    with s that have "?n \<le> 14" by (simp add: safe_def)
    with False have "?n mod 180 \<noteq> 0" by simp
    then show ?thesis
      using s that False by (auto simp: pp po safe_def)
  qed
  from interval_phase_total [OF pne] obtain s1 where
    i: "interval_phase E inp ?p = Inr s1" by blast
  note f1 = interval_phase_fields [OF i]
  have d1: "dead s1 = None \<Longrightarrow> dead s = None \<and> fps_to_next_action ?p \<noteq> 15 \<and> s1 = ?p"
    using interval_phase_dead [OF i] pf by metis
  from pol obtain op where op: "old_pipe s1 = Some op"
    by (auto simp: f1)
  from pne obtain p0 ps where p0: "pipes s1 = p0 # ps"
    by (cases "pipes ?p") (auto simp: f1)
  have "op = pipe_id p0" if "dead s1 = None"
    using single d1 [OF that] op p0 f1 by auto
  from bonus_phase_total [OF op p0 this] obtain s2 where
    b: "bonus_phase s1 = Inr s2" by blast
  note f2 = bonus_phase_fields [OF b]
  define s' where "s' = world_phase (death_phase E inp (event_phase inp s2))"
  have fr: "frame E inp s = Inr s'"
    by (simp add: frame_def i b s'_def)
  note fe = frame_effect [OF fr]
  have e_dead: "dead s' = dead s1"
    by (simp add: s'_def world_phase_fields late_phase_fields f2)
  have e_fps: "fps_to_next_action s' = fps_to_next_action s1"
    by (simp add: s'_def world_phase_fields late_phase_fields f2)
  have e_old: "old_pipe s' = old_pipe s2"
    by (simp add: s'_def world_phase_fields late_phase_fields)
  have old2: "old_pipe s2 = old_pipe ?p \<or> old_pipe s2 = Some (pipe_id (hd (pipes ?p)))"
    using bonus_phase_old_pipe [OF b] by (simp add: f1)
  have ml: "moved (bird s') (pipes ?p) \<noteq> []"
    "pipe_x (last (moved (bird s') (pipes ?p))) = pipe_x (last (pipes ?p)) - 3"
    using moved_last [OF pne pvis] by simp_all
  have a1: "pipes s' \<noteq> []"
    by (simp add: fe(3) ml)
  have a2: "old_pipe s' \<noteq> None"
    using old2 pol by (auto simp: e_old)
  have a3: "pipe_x (last (pipes s')) = 567 - 3 * real ((frame_clock s' - 1) mod 180 + 1)"
  proof (cases "?n mod 180 = 0")
    case True
    then show ?thesis
      by (simp add: fe(1) fe(3) ml plast)
  next
    case False
    then have "(?n - 1) mod 180 + 1 = ?n mod 180"
      using mod_pred_180 [of ?n] by simp
    then show ?thesis
      using False by (simp add: fe(1) fe(3) ml plast)
  qed
  have a4: "frame_clock s' \<le> 14 \<and> fps_to_next_action s' = frame_clock s'
            \<and> (\<exists>p. pipes s' = [p] \<and> old_pipe s' = Some (pipe_id p))"
    if "dead s' = None"
  proof -
    from that have dn: "dead s1 = None" by (simp add: e_dead)
    note d = d1 [OF dn]
    from d have "dead s = None"
      by simp
    from single [OF this] obtain p where p: "pipes ?p = [p]" "old_pipe ?p = Some (pipe_id p)"
      "?n \<le> 14" "fps_to_next_action s = ?n"
      by blast
    have "Suc ?n \<noteq> 15"
      using d p(4) pf by simp
    then have n13: "Suc ?n \<le> 14"
      using p(3) by simp
    have vp: "visible p"
      using pvis p(1) by simp
    from moved_single [OF vp] obtain p' where
      p': "moved (bird s') [p] = [p']" "pipe_id p' = pipe_id p"
      by blast
    have "old_pipe s' = Some (pipe_id p)"
      using old2 p by (auto simp: e_old)
    then show ?thesis
      using n13 d p p' by (simp add: fe(1) fe(3) e_fps pf)
  qed
  have "safe s'"
    unfolding safe_def using a1 a2 a3 a4 by (simp add: fe(1))
  with fr show ?thesis
    by blast
qed

lemma main_total: "\<exists>s. main E g0 inps = Inr s \<and> safe s"
  unfolding main_def
  by (rule run_total [where P = safe, OF frame_safe safe_new_life safe_main_init])

subsection \<open>Order of the queue\<close>

lemma sorted_wrt_pop:
  "sorted_wrt R (map f ps) \<Longrightarrow> sorted_wrt R (map f (pop_invisible ps))"
  by (simp add: pop_invisible_drop sorted_wrt_drop flip: drop_map)

lemma set_pop: "set (pop_invisible ps) \<subseteq> set ps"
  by (simp add: pop_invisible_def set_dropWhileD subsetI)

lemma moved_queue:
  assumes "sorted_wrt (<) (map pipe_x ps)" and "\<forall>p \<in> set ps. pipe_x p \<le> 567"
    and "sorted_wrt (<) (map pipe_id ps)" and "\<forall>p \<in> set ps. pipe_id p < n"
  shows "sorted_wrt (<) (map pipe_x (moved b ps))"
    and "\<forall>p \<in> set (moved b ps). pipe_x p < 567"
    and "sorted_wrt (<) (map pipe_id (moved b ps))"
    and "\<forall>p \<in> set (moved b ps). pipe_id p < n"
proof -
  have "sorted_wrt (<) (map pipe_x (pop_invisible ps))"
    using assms(1) by (rule sorted_wrt_pop)
  then show "sorted_wrt (<) (map pipe_x (moved b ps))"
    by (simp add: moved_map sorted_wrt_map)
  have "\<forall>x \<in> set (map pipe_x (moved b ps)). x < 567"
    using assms(2) set_pop [of ps] unfolding moved_map by fastforce
  then show "\<forall>p \<in> set (moved b ps). pipe_x p < 567"
    by simp
  show "sorted_wrt (<) (map pipe_id (moved b ps))"
    using assms(3) by (simp add: moved_map sorted_wrt_pop)
  have "\<forall>x \<in> set (map pipe_id (moved b ps)). x < n"
    using assms(4) set_pop [of ps] unfolding moved_map by fastforce
  then show "\<forall>p \<in> set (moved b ps). pipe_id p < n"
    by simp
qed

lemma frame_queue:
  assumes q: "queue_inv s" and fr: "frame E inp s = Inr s'"
  shows "queue_inv s'"
proof -
  let ?c = "choose_phase E s"
  let ?p = "spawn_phase E ?c"
  let ?pp = "fst (PipePair_init E (next_id s) (rand ?c))"
  note fe = frame_effect [OF fr]
  have pp: "pipes ?p = (if frame_clock s mod 180 = 0 then pipes s @ [?pp] else pipes s)"
    and pn: "next_id ?p = (if frame_clock s mod 180 = 0 then Suc (next_id s) else next_id s)"
    by (simp_all add: spawn_phase_pipes choose_phase_fields)
  have 1: "sorted_wrt (<) (map pipe_x (pipes ?p))"
    using q by (auto simp: pp queue_inv_def sorted_wrt_append PipePair_init_fields)
  have 2: "\<forall>p \<in> set (pipes ?p). pipe_x p \<le> 567"
    using q by (auto simp: pp queue_inv_def PipePair_init_fields intro: less_imp_le)
  have 3: "sorted_wrt (<) (map pipe_id (pipes ?p))"
    using q by (auto simp: pp queue_inv_def sorted_wrt_append PipePair_init_fields)
  have 4: "\<forall>p \<in> set (pipes ?p). pipe_id p < next_id ?p"
    using q by (auto simp: pp pn queue_inv_def PipePair_init_fields intro: less_SucI)
  show ?thesis
    unfolding queue_inv_def fe(3) fe(5)
    using moved_queue [OF 1 2 3 4] by simp
qed

lemma queue_new_life: "queue_inv (new_life E s)"
  by (simp add: queue_inv_def new_life_def start_life_def)

lemma queue_main_init: "queue_inv (main_init E g0)"
  by (simp add: queue_inv_def main_init_def start_life_def)

subsection \<open>The obstacle layout\<close>

lemma frame_layout:
  assumes l: "layout_inv E s" and fr: "frame E inp s = Inr s'"
  shows "layout_inv E s'"
proof -
  let ?c = "choose_phase E s"
  let ?p = "spawn_phase E ?c"
  let ?n = "spawned (frame_clock s)"
  let ?n' = "spawned (Suc (frame_clock s))"
  let ?pp = "fst (PipePair_init E (next_id s) (rand ?c))"
  note fe = frame_effect [OF fr]
  have pp: "pipes ?p = (if frame_clock s mod 180 = 0 then pipes s @ [?pp] else pipes s)"
    and pr: "random_state0 (rand ?p) =
               (if frame_clock s mod 180 = 0
                then snd (randint E (random_state0 (rand s)) 1 total_pipe_body_pieces)
                else random_state0 (rand s))"
    by (simp_all add: spawn_phase_pipes choose_phase_fields choose_phase_state0)
  have r: "random_state0 (rand ?p) = seeded_stream E ?n'"
    using l by (simp add: pr layout_inv_def spawned_Suc)
  have len: "length (pipes ?p) \<le> ?n'"
    using l by (simp add: pp layout_inv_def spawned_Suc)
  have "bottom_pieces ?pp = gap_of_seed E ?n"
    using l by (simp add: PipePair_init_fields choose_phase_state0 gap_of_seed_def layout_inv_def)
  then have m: "map bottom_pieces (pipes ?p) = map (gap_of_seed E) [?n' - length (pipes ?p) ..< ?n']"
    using l by (auto simp: pp layout_inv_def spawned_Suc Suc_diff_le)
  obtain k where k: "pop_invisible (pipes ?p) = drop k (pipes ?p)" "k \<le> length (pipes ?p)"
    using pop_invisible_drop [of "pipes ?p"] length_takeWhile_le by metis
  have len': "length (pipes s') = length (pipes ?p) - k"
    using k by (simp add: fe(3) moved_def)
  have "map bottom_pieces (pipes s') = drop k (map bottom_pieces (pipes ?p))"
    by (simp add: fe(3) moved_map k drop_map)
  also have "\<dots> = map (gap_of_seed E) [?n' - length (pipes ?p) + k ..< ?n']"
    by (simp add: m drop_map)
  also have "?n' - length (pipes ?p) + k = ?n' - length (pipes s')"
    using len k(2) len' by simp
  finally show ?thesis
    using r len len' by (simp add: layout_inv_def fe(1) fe(4))
qed

lemma layout_new_life: "layout_inv E (new_life E s)"
  by (simp add: layout_inv_def new_life_def start_life_def spawned_0)

lemma layout_main_init: "layout_inv E (main_init E g0)"
  by (simp add: layout_inv_def main_init_def start_life_def spawned_0)

subsection \<open>Runs on concrete inputs\<close>

lemmas model_defs =
  main_def main_init_def start_life_def new_life_def frame_def choose_phase_def
  determine_action_def test_env_def scripted_randint_def dict_get_def Let_def
  spawn_phase_def PipePair_init_def total_pipe_body_pieces_def
  WIN_HEIGHT_def Bird_HEIGHT_def PIECE_HEIGHT_def WIN_WIDTH_def
  interval_phase_def bonus_phase_def event_phase_def no_input_def quit_input_def
  death_phase_def td_update_def get_max_reward_def
  collides_with_def out_of_bounds_def world_phase_def pop_invisible_def visible_def
  PipePair_WIDTH_def PipePair_update_def ANIMATION_SPEED_def Bird_update_def
  frames_to_msec_1 passed_def py_fmod_def msec_to_frames_interval

lemma first_frame:
  "\<exists>s. main test_env [5] [no_input] = Inr s \<and> msec_to_climb (bird s) = - 44 / 3
     \<and> map pipe_x (pipes s) = [564] \<and> map bottom_pieces (pipes s) = [10]
     \<and> frame_clock s = 1 \<and> \<not> done_flag s"
  by (simp add: model_defs)

text \<open>
  C7 on the code: a quit event on the first frame writes both files and sets \<open>done\<close>, the
  rest of that frame still runs, and the outer loop then starts a new life, whose first
  frame is processed.
\<close>

theorem quit_starts_new_life:
  "(case main test_env [5] [quit_input] of
      Inr s \<Rightarrow> done_flag s \<and> frame_clock s = 1
               \<and> files s ''foo.txt'' = Some (str_dict Map.empty)
               \<and> files s ''max_score.txt'' = Some (str_int 0)
    | Inl e \<Rightarrow> False)
   \<and> (case main test_env [5] [quit_input, no_input] of
      Inr s \<Rightarrow> \<not> done_flag s \<and> frame_clock s = 1 \<and> length (pipes s) = 1 \<and> score s = 0
    | Inl e \<Rightarrow> False)"
  by (simp add: model_defs)

text \<open>
  C8 as stated fails: on the 181st frame the queue holds one pipe at \<open>x = 27\<close>; the new
  pipe is appended at \<open>x = 567\<close>, so from front to back the positions increase.
\<close>

theorem queue_order_counterexample:
  "sorted_wrt (>) (map pipe_x (pipes frame180))
   \<and> \<not> sorted_wrt (>) (map pipe_x (pipes (spawn_phase test_env frame180)))"
  by (simp add: frame180_def frame14_def model_defs)

text \<open>
  C8, amended. \<open>main\<close> never raises, and after every frame the queue is in insertion
  order (identities increase from front to back) and sorted by strictly increasing \<open>x\<close>
  from front to back: the front pipe is the oldest and the leftmost one.
\<close>

theorem queue_sorted_increasing:
  "\<exists>s. main E g0 inps = Inr s
      \<and> sorted_wrt (<) (map pipe_x (pipes s))
      \<and> sorted_wrt (<) (map pipe_id (pipes s))
      \<and> (\<forall>p \<in> set (pipes s). pipe_x (hd (pipes s)) \<le> pipe_x p)"
proof -
  have "\<exists>s. run E inps (main_init E g0) = Inr s \<and> (safe s \<and> queue_inv s)"
  proof (rule run_total)
    fix inp and s :: "'a game"
    assume "safe s \<and> queue_inv s"
    then show "\<exists>s'. frame E inp s = Inr s' \<and> (safe s' \<and> queue_inv s')"
      using frame_safe [of s E inp] frame_queue [of s E inp] by blast
  next
    fix s :: "'a game"
    assume "safe s \<and> queue_inv s"
    then show "safe (new_life E s) \<and> queue_inv (new_life E s)"
      by (simp add: safe_new_life queue_new_life)
  next
    show "safe (main_init E g0) \<and> queue_inv (main_init E g0)"
      by (simp add: safe_main_init queue_main_init)
  qed
  then obtain s where s: "main E g0 inps = Inr s" "queue_inv s"
    by (auto simp: main_def)
  have "\<forall>p \<in> set (pipes s). pipe_x (hd (pipes s)) \<le> pipe_x p"
    using s(2) by (cases "pipes s") (auto simp: queue_inv_def intro: less_imp_le)
  with s show ?thesis
    by (auto simp: queue_inv_def)
qed

theorem queue_sorted_increasing_witness:
  "\<exists>s. main test_env [5] [no_input] = Inr s \<and> map pipe_x (pipes s) = [564]
      \<and> sorted_wrt (<) (map pipe_x (pipes s))
      \<and> (\<forall>p \<in> set (pipes s). pipe_x (hd (pipes s)) \<le> pipe_x p)"
  using queue_sorted_increasing [of test_env "[5]" "[no_input]"] first_frame by auto

lemma seeded_stream_cong:
  "randint E' = randint E \<Longrightarrow> seed0 E' = seed0 E \<Longrightarrow> seeded_stream E' n = seeded_stream E n"
  by (induction n) simp_all

lemma layout_run: "\<exists>s. main E g0 inps = Inr s \<and> layout_inv E s"
proof -
  have "\<exists>s. run E inps (main_init E g0) = Inr s \<and> (safe s \<and> layout_inv E s)"
  proof (rule run_total)
    fix inp and s :: "'a game"
    assume "safe s \<and> layout_inv E s"
    then show "\<exists>s'. frame E inp s = Inr s' \<and> (safe s' \<and> layout_inv E s')"
      using frame_safe [of s E inp] frame_layout [of E s inp] by blast
  next
    fix s :: "'a game"
    assume "safe s \<and> layout_inv E s"
    then show "safe (new_life E s) \<and> layout_inv E (new_life E s)"
      by (simp add: safe_new_life layout_new_life)
  next
    show "safe (main_init E g0) \<and> layout_inv E (main_init E g0)"
      by (simp add: safe_main_init layout_main_init)
  qed
  then show ?thesis
    by (auto simp: main_def)
qed

text \<open>
  C9. Two runs with the same generator and seed, whatever their exploration states, inputs
  and collisions: in both, the gaps of the pipes in the queue are those of one sequence
  \<open>gap_of_seed\<close>, which is drawn from the seeded stream alone, at the indices of the pipes
  in their life; and the obstacle stream stands after as many draws as pipes were created
  in the life.
\<close>

theorem obstacle_layout_from_seed:
  assumes "randint E' = randint E" and "seed0 E' = seed0 E"
  shows "\<exists>s s'. main E g0 inps = Inr s \<and> main E' g0' inps' = Inr s'
           \<and> map bottom_pieces (pipes s)
               = map (gap_of_seed E) (window (frame_clock s) (length (pipes s)))
           \<and> map bottom_pieces (pipes s')
               = map (gap_of_seed E) (window (frame_clock s') (length (pipes s')))
           \<and> random_state0 (rand s) = seeded_stream E (spawned (frame_clock s))
           \<and> random_state0 (rand s') = seeded_stream E (spawned (frame_clock s'))"
proof -
  have ss: "seeded_stream E' k = seeded_stream E k" for k
    using assms by (rule seeded_stream_cong)
  have g: "gap_of_seed E' k = gap_of_seed E k" for k
    by (simp add: gap_of_seed_def ss assms(1))
  from layout_run [of E g0 inps] obtain s where
    s: "main E g0 inps = Inr s" "layout_inv E s"
    by blast
  from layout_run [of E' g0' inps'] obtain s' where
    s': "main E' g0' inps' = Inr s'" "layout_inv E' s'"
    by blast
  show ?thesis
    using s s' by (auto simp: layout_inv_def window_def g ss)
qed

theorem obstacle_layout_from_seed_witness:
  "randint (test_env\<lparr>collide_mask := (\<lambda>p b w. True)\<rparr>) = randint test_env
   \<and> seed0 (test_env\<lparr>collide_mask := (\<lambda>p b w. True)\<rparr>) = seed0 test_env
   \<and> (\<exists>s s'. main test_env [5] [no_input] = Inr s
         \<and> main (test_env\<lparr>collide_mask := (\<lambda>p b w. True)\<rparr>) [1, 1] [quit_input] = Inr s'
         \<and> map bottom_pieces (pipes s) = [10]
         \<and> map bottom_pieces (pipes s')
               = map (gap_of_seed test_env) (window (frame_clock s') (length (pipes s'))))"
proof -
  have h: "randint (test_env\<lparr>collide_mask := (\<lambda>p b w. True)\<rparr>) = randint test_env"
    "seed0 (test_env\<lparr>collide_mask := (\<lambda>p b w. True)\<rparr>) = seed0 test_env"
    by simp_all
  from obstacle_layout_from_seed [OF h, of "[5]" "[no_input]" "[1, 1]" "[quit_input]"]
  show ?thesis
    using first_frame h by auto
qed

subsection \<open>The climb of the bird\<close>

lemma climb_step:
  assumes "msec_to_climb b = 3333 / 10 - real k * (50 / 3)" and "k < 20"
  shows "Bird_update 1 b = b\<lparr>bird_y := bird_y b - 5 * (1 - cos (real k * theta)),
                             msec_to_climb := 3333 / 10 - real (Suc k) * (50 / 3)\<rparr>"
proof -
  have "real k \<le> 19"
    using assms(2) by simp
  then have m: "0 < msec_to_climb b"
    by (simp add: assms(1))
  have a: "(1 - msec_to_climb b / CLIMB_DURATION) * pi = real k * theta"
    by (simp add: assms(1) CLIMB_DURATION_def theta_def field_simps)
  have "Bird_update 1 b = b\<lparr>bird_y := bird_y b - CLIMB_SPEED * frames_to_msec 1 *
                 (1 - cos ((1 - msec_to_climb b / CLIMB_DURATION) * pi)),
               msec_to_climb := msec_to_climb b - frames_to_msec 1\<rparr>"
    using m by (simp only: Bird_update_def Let_def if_True)
  also have "\<dots> = b\<lparr>bird_y := bird_y b - 5 * (1 - cos (real k * theta)),
                     msec_to_climb := msec_to_climb b - 50 / 3\<rparr>"
    unfolding a by (simp add: frames_to_msec_1 CLIMB_SPEED_def)
  also have "msec_to_climb b - 50 / 3 = 3333 / 10 - real (Suc k) * (50 / 3)"
  proof -
    have "real (Suc k) * (50 / 3) = real k * (50 / 3) + 50 / 3"
      by (simp add: ring_distribs)
    then show ?thesis
      using assms(1) by linarith
  qed
  finally show ?thesis .
qed

lemma climb_n:
  "n \<le> 20 \<Longrightarrow>
   (Bird_update 1 ^^ n) \<lparr>bird_x = 50, bird_y = 240, msec_to_climb = 3333 / 10\<rparr>
     = \<lparr>bird_x = 50, bird_y = 240 - 5 * (\<Sum>k<n. 1 - cos (real k * theta)),
        msec_to_climb = 3333 / 10 - real n * (50 / 3)\<rparr>"
proof (induction n)
  case 0
  then show ?case by simp
next
  case (Suc n)
  then have n: "n < 20" and ih: "(Bird_update 1 ^^ n) \<lparr>bird_x = 50, bird_y = 240, msec_to_climb = 3333 / 10\<rparr>
     = \<lparr>bird_x = 50, bird_y = 240 - 5 * (\<Sum>k<n. 1 - cos (real k * theta)),
        msec_to_climb = 3333 / 10 - real n * (50 / 3)\<rparr>"
    by simp_all
  have "Bird_update 1 \<lparr>bird_x = 50, bird_y = 240 - 5 * (\<Sum>k<n. 1 - cos (real k * theta)),
        msec_to_climb = 3333 / 10 - real n * (50 / 3)\<rparr>
     = \<lparr>bird_x = 50, bird_y = 240 - 5 * (\<Sum>k<n. 1 - cos (real k * theta))
            - 5 * (1 - cos (real n * theta)),
        msec_to_climb = 3333 / 10 - real (Suc n) * (50 / 3)\<rparr>"
    by (subst climb_step [of _ n]) (simp_all add: n)
  then show ?case
    by (simp add: ih algebra_simps)
qed

lemma sink_n:
  "msec_to_climb b \<le> 0 \<Longrightarrow> (Bird_update 1 ^^ n) b = b\<lparr>bird_y := bird_y b + 3 * real n\<rparr>"
proof (induction n)
  case 0
  then show ?case by simp
next
  case (Suc n)
  then show ?case
    by (simp add: Bird_update_def frames_to_msec_1 SINK_SPEED_def algebra_simps)
qed

text \<open>
  C5 as stated fails: a life starts with 2 ms left to climb, and the first update takes a
  whole frame (1000/60 ms) off it, leaving \<open>-44/3\<close>; and 20 updates after a climb was
  triggered the timer is \<open>333.3 - 20 * 1000/60 = -1/30\<close>.
\<close>

theorem climb_timer_counterexample:
  "(case main test_env [5] [no_input] of Inr s \<Rightarrow> msec_to_climb (bird s) | Inl e \<Rightarrow> 0) < 0
   \<and> msec_to_climb ((Bird_update 1 ^^ 20)
         ((bird (main_init test_env []))\<lparr>msec_to_climb := CLIMB_DURATION\<rparr>)) < 0"
proof -
  have "(bird (main_init test_env []))\<lparr>msec_to_climb := CLIMB_DURATION\<rparr>
          = \<lparr>bird_x = 50, bird_y = 240, msec_to_climb = 3333 / 10\<rparr>"
    by (simp add: main_init_def start_life_def CLIMB_DURATION_def WIN_HEIGHT_def Bird_HEIGHT_def)
  then have "msec_to_climb ((Bird_update 1 ^^ 20)
         ((bird (main_init test_env []))\<lparr>msec_to_climb := CLIMB_DURATION\<rparr>)) < 0"
    by (simp add: climb_n)
  then show ?thesis
    using first_frame by auto
qed

text \<open>
  C5, amended. \<open>main\<close> never raises, and after every frame of every life the climb timer
  lies above minus one frame time (\<open>-1000/60\<close> ms) and is at most \<open>CLIMB_DURATION\<close>: the
  timer is decreased only while it is positive, so it can end below zero, by less than one
  frame.
\<close>

theorem climb_timer_bounds:
  "\<exists>s. main E g0 inps = Inr s
      \<and> - frames_to_msec 1 < msec_to_climb (bird s) \<and> msec_to_climb (bird s) \<le> CLIMB_DURATION"
proof -
  have "\<exists>s. run E inps (main_init E g0) = Inr s \<and> (safe s \<and> timer_inv (bird s))"
  proof (rule run_total)
    fix inp and s :: "'a game"
    assume "safe s \<and> timer_inv (bird s)"
    then show "\<exists>s'. frame E inp s = Inr s' \<and> (safe s' \<and> timer_inv (bird s'))"
      using frame_safe [of s E inp] frame_timer [of s E inp] by blast
  next
    fix s :: "'a game"
    assume "safe s \<and> timer_inv (bird s)"
    then show "safe (new_life E s) \<and> timer_inv (bird (new_life E s))"
      by (simp add: safe_new_life new_life_timer)
  next
    show "safe (main_init E g0) \<and> timer_inv (bird (main_init E g0))"
      by (simp add: safe_main_init main_init_timer)
  qed
  then show ?thesis
    by (auto simp: main_def timer_inv_def)
qed

theorem climb_timer_bounds_witness:
  "\<exists>s. main test_env [5] [no_input] = Inr s \<and> msec_to_climb (bird s) = - 44 / 3
      \<and> - frames_to_msec 1 < msec_to_climb (bird s) \<and> msec_to_climb (bird s) \<le> CLIMB_DURATION"
  using climb_timer_bounds [of test_env "[5]" "[no_input]"] first_frame by auto

subsection \<open>The state encoder\<close>

lemma sum20:
  fixes f :: "nat \<Rightarrow> real"
  shows "(\<Sum>k<20. f k) = f 0 + f 10 + (f 9 + f 11) + (f 8 + f 12) + (f 7 + f 13)
           + (f 6 + f 14) + (f 5 + f 15) + (f 4 + f 16) + (f 3 + f 17) + (f 2 + f 18)
           + (f 1 + f 19)"
  by (simp add: eval_nat_numeral)

lemma cos_pair: "cos (a - b) + cos (a + b) = 2 * (cos a * cos b)" for a b :: real
  by (simp add: cos_add cos_diff)

lemma neg_times_unit: "a < 0 \<Longrightarrow> 0 < b \<Longrightarrow> b \<le> 1 \<Longrightarrow> a \<le> a * b \<and> a * b < 0" for a b :: real
proof -
  assume a: "a < 0" and b: "0 < b" "b \<le> 1"
  have "0 \<le> a * (b - 1)"
    using a b by (intro mult_nonpos_nonpos) simp_all
  then have "a \<le> a * b"
    by (simp add: algebra_simps)
  moreover have "a * b < 0"
    using a b by (simp add: mult_neg_pos)
  ultimately show ?thesis by simp
qed

lemma cos_10_theta: "- (1 / 190) < cos (10 * theta)" "cos (10 * theta) < 0"
proof -
  let ?u = "pi / 19998"
  have e: "10 * theta = pi / 2 + ?u"
    by (simp add: theta_def)
  have "cos (10 * theta) = cos (pi / 2 + ?u)"
    by (simp only: e)
  also have "\<dots> = cos (pi / 2) * cos ?u - sin (pi / 2) * sin ?u"
    by (rule cos_add)
  also have "\<dots> = - sin ?u"
    by simp
  finally have c: "cos (10 * theta) = - sin ?u" .
  have u: "0 < ?u" "?u < pi" "?u < 1 / 190"
    using pi_gt_zero pi_less_4 by simp_all
  have "sin ?u \<le> ?u"
    using u(1) by (intro sin_x_le_x) simp
  then show "- (1 / 190) < cos (10 * theta)"
    using u(3) c by linarith
  have "0 < sin ?u"
    using u by (intro sin_gt_zero)
  then show "cos (10 * theta) < 0"
    using c by simp
qed

lemma cos_j_theta:
  assumes "0 < j" and "j \<le> 9"
  shows "0 < cos (j * theta)" and "cos (j * theta) \<le> 1"
proof -
  have "0 < j * theta"
    using assms(1) pi_gt_zero by (simp add: theta_def)
  moreover have "j * theta \<le> 9 * theta"
    using assms(2) pi_gt_zero by (simp add: theta_def)
  moreover have "9 * theta < pi / 2"
    using pi_gt_zero by (simp add: theta_def)
  ultimately show "0 < cos (j * theta)"
    by (intro cos_gt_zero) simp_all
  show "cos (j * theta) \<le> 1"
    by simp
qed

lemma climb_sum_bounds:
  "9 / 10 < (\<Sum>k<20. cos (real k * theta))" "(\<Sum>k<20. cos (real k * theta)) < 1"
proof -
  let ?c = "cos (10 * theta)"
  have p: "cos ((10 - j) * theta) + cos ((10 + j) * theta) = 2 * (?c * cos (j * theta))" for j
    using cos_pair [of "10 * theta" "j * theta"] by (simp add: algebra_simps)
  have b: "?c \<le> ?c * cos (j * theta) \<and> ?c * cos (j * theta) < 0" if "0 < j" "j \<le> 9" for j
    using neg_times_unit [OF cos_10_theta(2) cos_j_theta [OF that]] .
  have s: "(\<Sum>k<20. cos (real k * theta)) = 1 + ?c
      + 2 * (?c * cos (1 * theta)) + 2 * (?c * cos (2 * theta)) + 2 * (?c * cos (3 * theta))
      + 2 * (?c * cos (4 * theta)) + 2 * (?c * cos (5 * theta)) + 2 * (?c * cos (6 * theta))
      + 2 * (?c * cos (7 * theta)) + 2 * (?c * cos (8 * theta)) + 2 * (?c * cos (9 * theta))"
    unfolding sum20
    using p [of 1] p [of 2] p [of 3] p [of 4] p [of 5] p [of 6] p [of 7] p [of 8] p [of 9]
    by simp
  have b1: "?c \<le> ?c * cos (j * theta)" if "0 < j" "j \<le> 9" for j
    using b [OF that] by simp
  have b2: "?c * cos (j * theta) < 0" if "0 < j" "j \<le> 9" for j
    using b [OF that] by simp
  note lo = b1 [of 1] b1 [of 2] b1 [of 3] b1 [of 4] b1 [of 5] b1 [of 6] b1 [of 7] b1 [of 8]
    b1 [of 9]
  note hi = b2 [of 1] b2 [of 2] b2 [of 3] b2 [of 4] b2 [of 5] b2 [of 6] b2 [of 7] b2 [of 8]
    b2 [of 9]
  show "9 / 10 < (\<Sum>k<20. cos (real k * theta))"
    unfolding s using lo cos_10_theta(1) by linarith
  show "(\<Sum>k<20. cos (real k * theta)) < 1"
    unfolding s using hi cos_10_theta(2) by linarith
qed

lemma bird29_y:
  "bird_y bird29 = 167 + 5 * (\<Sum>k<20. cos (real k * theta))"
proof -
  let ?b0 = "\<lparr>bird_x = 50, bird_y = 240, msec_to_climb = 3333 / 10\<rparr>"
  have b0: "(bird (main_init test_env []))\<lparr>msec_to_climb := CLIMB_DURATION\<rparr> = ?b0"
    by (simp add: main_init_def start_life_def CLIMB_DURATION_def WIN_HEIGHT_def Bird_HEIGHT_def)
  have "(Bird_update 1 ^^ 29) ?b0 = (Bird_update 1 ^^ 9) ((Bird_update 1 ^^ 20) ?b0)"
    using funpow_add [of 9 20 "Bird_update 1"] by simp
  also have "\<dots> = (Bird_update 1 ^^ 9)
      \<lparr>bird_x = 50, bird_y = 240 - 5 * (\<Sum>k<20. 1 - cos (real k * theta)),
       msec_to_climb = 3333 / 10 - real 20 * (50 / 3)\<rparr>"
    by (subst climb_n) simp_all
  also have "\<dots> = \<lparr>bird_x = 50, bird_y = 240 - 5 * (\<Sum>k<20. 1 - cos (real k * theta)) + 3 * real 9,
       msec_to_climb = 3333 / 10 - real 20 * (50 / 3)\<rparr>"
    by (subst sink_n) simp_all
  finally have "bird_y bird29 = 240 - 5 * (\<Sum>k<20. 1 - cos (real k * theta)) + 27"
    by (simp add: bird29_def b0)
  then show ?thesis
    by (simp add: sum_subtractf)
qed

text \<open>
  C4 as stated fails: 29 updates after a click on the first frame the bird is between
  171.5 and 172, the raw vertical offset to the first pipe (reference line 165) between 6.5
  and 7; the encoder gives 6, rounding to the nearest integer gives 7.
\<close>

theorem encoder_rounds_counterexample:
  "fst (encode_state bird29 pipe29 False)
     \<noteq> round (bird_y bird29 - of_int (512 - bottom_pieces pipe29 * 32 - 27))"
proof -
  let ?r = "bird_y bird29 - of_int (512 - bottom_pieces pipe29 * 32 - 27)"
  have r: "13 / 2 < ?r" "?r < 7"
    using climb_sum_bounds by (simp_all add: bird29_y pipe29_def)
  have "\<lfloor>?r\<rfloor> = 6"
    using r by (intro floor_unique) simp_all
  then have t: "fst (encode_state bird29 pipe29 False) = 6"
    using r by (simp add: encode_state_def py_int_def)
  have "round ?r = 7"
    unfolding round_def using r by (intro floor_unique) simp_all
  with t show ?thesis
    by simp
qed

lemma py_int_trunc: "\<bar>of_int (py_int r)\<bar> \<le> \<bar>r\<bar> \<and> \<bar>of_int (py_int r) - r\<bar> < 1"
  unfolding py_int_def by (cases "0 \<le> r") (simp_all, linarith+)


subsection \<open>Decision intervals in a run\<close>

lemma run_snoc:
  "run E (inps @ [inp]) s0 =
     (case run E inps s0 of Inl e \<Rightarrow> Inl e | Inr s \<Rightarrow> frame E inp (loop_head E s))"
  by (induction inps arbitrary: s0) (auto simp: loop_head_def split: sum.splits)

lemma main_snoc:
  "main E g0 inps = Inr s \<Longrightarrow> main E g0 (inps @ [inp]) = frame E inp (loop_head E s)"
  by (simp add: main_def run_snoc)

lemma choose_phase_table:
  "dict (choose_phase E s) = dict s"
  "state (choose_phase E s) = state s"
  "previous_state (choose_phase E s) = previous_state s"
  "previous_action (choose_phase E s) = previous_action s"
  "early_state (choose_phase E s) = early_state s"
  "early_action (choose_phase E s) = early_action s"
  "bird_y (bird (choose_phase E s)) = bird_y (bird s)"
  "bird_x (bird (choose_phase E s)) = bird_x (bird s)"
  "done_flag (choose_phase E s) = done_flag s"
  "fps_to_next_action s \<noteq> 0 \<Longrightarrow> action (choose_phase E s) = action s"
  by (simp_all add: choose_phase_def Let_def split: prod.splits)

lemma spawn_phase_table:
  "dict (spawn_phase E s) = dict s"
  "state (spawn_phase E s) = state s"
  "action (spawn_phase E s) = action s"
  "previous_state (spawn_phase E s) = previous_state s"
  "previous_action (spawn_phase E s) = previous_action s"
  "early_state (spawn_phase E s) = early_state s"
  "early_action (spawn_phase E s) = early_action s"
  "done_flag (spawn_phase E s) = done_flag s"
  by (simp_all add: spawn_phase_def Let_def split: prod.splits)

lemma before_interval_fields:
  "dict (before_interval E t) = dict t"
  "state (before_interval E t) = state t"
  "previous_state (before_interval E t) = previous_state t"
  "previous_action (before_interval E t) = previous_action t"
  "early_state (before_interval E t) = early_state t"
  "early_action (before_interval E t) = early_action t"
  "bird_y (bird (before_interval E t)) = bird_y (bird t)"
  "frame_clock (before_interval E t) = frame_clock t"
  "score (before_interval E t) = score t"
  "max_score (before_interval E t) = max_score t"
  "dead (before_interval E t) = dead t"
  "done_flag (before_interval E t) = done_flag t"
  "fps_to_next_action (before_interval E t) = Suc (fps_to_next_action t)"
  "fps_to_next_action t \<noteq> 0 \<Longrightarrow> action (before_interval E t) = action t"
  by (simp_all add: before_interval_def choose_phase_table spawn_phase_table
        choose_phase_fields spawn_phase_fields)

lemma interval_phase_fps:
  assumes "interval_phase E inp s = Inr s'"
  shows "fps_to_next_action s' = (if fps_to_next_action s = 15 then 0 else fps_to_next_action s)"
  using assms
  by (auto simp: interval_phase_def Let_def split: if_splits list.splits)

lemma frame_steps:
  assumes "safe t"
  shows "\<exists>s1 s2. interval_phase E inp (before_interval E t) = Inr s1 \<and> bonus_phase s1 = Inr s2
           \<and> frame E inp t = Inr (world_phase (death_phase E inp (event_phase inp s2)))"
proof -
  from frame_safe [OF assms, of E inp] obtain s' where "frame E inp t = Inr s'"
    by blast
  then show ?thesis
    by (auto simp: frame_def before_interval_def split: sum.splits)
qed

lemma frame_interval_inv:
  assumes "interval_inv t" and "frame E inp t = Inr s'"
  shows "interval_inv s'"
proof -
  from assms(2) obtain s1 s2 where
    i: "interval_phase E inp (before_interval E t) = Inr s1"
    and b: "bonus_phase s1 = Inr s2"
    and w: "s' = world_phase (death_phase E inp (event_phase inp s2))"
    by (auto simp: frame_def before_interval_def split: sum.splits)
  have "fps_to_next_action s' = fps_to_next_action s1"
    by (simp add: w world_phase_fields late_phase_fields bonus_phase_fields [OF b])
  also have "\<dots> = (if Suc (fps_to_next_action t) = 15 then 0 else Suc (fps_to_next_action t))"
    by (simp add: interval_phase_fps [OF i] before_interval_fields)
  also have "\<dots> = Suc (frame_clock t) mod 15"
    using assms(1) by (simp add: interval_inv_def mod_Suc)
  finally show ?thesis
    by (simp add: interval_inv_def frame_effect(1) [OF assms(2)])
qed

lemma interval_new_life: "interval_inv (new_life E s)"
  by (simp add: interval_inv_def new_life_def start_life_def)

lemma interval_main_init: "interval_inv (main_init E g0)"
  by (simp add: interval_inv_def main_init_def start_life_def)

lemma loop_head_safe: "safe s \<Longrightarrow> safe (loop_head E s)"
  by (simp add: loop_head_def safe_new_life)

lemma loop_head_interval: "interval_inv s \<Longrightarrow> interval_inv (loop_head E s)"
  by (simp add: loop_head_def interval_new_life)

lemma run_interval: "\<exists>s. main E g0 inps = Inr s \<and> safe s \<and> interval_inv s"
proof -
  have "\<exists>s. run E inps (main_init E g0) = Inr s \<and> (safe s \<and> interval_inv s)"
  proof (rule run_total)
    fix inp and s :: "'a game"
    assume "safe s \<and> interval_inv s"
    then show "\<exists>s'. frame E inp s = Inr s' \<and> (safe s' \<and> interval_inv s')"
      using frame_safe [of s E inp] frame_interval_inv [of s E inp] by blast
  next
    fix s :: "'a game"
    assume "safe s \<and> interval_inv s"
    then show "safe (new_life E s) \<and> interval_inv (new_life E s)"
      by (simp add: safe_new_life interval_new_life)
  next
    show "safe (main_init E g0) \<and> interval_inv (main_init E g0)"
      by (simp add: safe_main_init interval_main_init)
  qed
  then show ?thesis
    by (simp add: main_def)
qed

lemma interval_due:
  assumes "interval_inv t"
  shows "fps_to_next_action (before_interval E t) = 15 \<longleftrightarrow> frame_clock t mod 15 = 14"
proof -
  have "frame_clock t mod 15 < 15" by simp
  then show ?thesis
    using assms by (simp add: before_interval_fields interval_inv_def)
qed

lemma interval_phase_skip:
  "fps_to_next_action s \<noteq> 15 \<Longrightarrow> interval_phase E inp s = Inr s"
  by (simp add: interval_phase_def)

lemma py_int_round: "\<bar>of_int (py_int r) - r\<bar> < 1 / 2 \<Longrightarrow> py_int r = round r"
proof -
  assume "\<bar>of_int (py_int r) - r\<bar> < 1 / 2"
  then have "\<bar>r - of_int (py_int r)\<bar> < 1 / 2"
    by linarith
  then have "round r = py_int r"
    by (rule round_unique')
  then show ?thesis by simp
qed

subsection \<open>The recorded pairs\<close>

lemma recorded_snoc:
  "run E inps s0 = Inr s \<Longrightarrow>
   recorded E (inps @ [inp]) s0 h =
     (let t = loop_head E s;
          h0 = (if done_flag s then initial_pairs else recorded E inps s0 h);
          c = before_interval E t
      in if frame_clock t mod 15 = 14 then h0 @ [(state c, action c)] else h0)"
proof (induction inps arbitrary: s0 h)
  case Nil
  then show ?case
    by (auto simp: Let_def loop_head_def split: sum.splits)
next
  case (Cons a inps)
  from Cons.prems obtain s1 where f: "frame E a (loop_head E s0) = Inr s1"
    and r: "run E inps s1 = Inr s"
    by (auto simp: loop_head_def split: sum.splits)
  show ?case
    using Cons.IH [OF r] f by (simp add: Let_def)
qed

lemma interval_phase_rotation:
  assumes "interval_phase E inp s = Inr s'" and "fps_to_next_action s = 15"
  shows "early_state s' = previous_state s" "early_action s' = previous_action s"
    "previous_state s' = state s" "previous_action s' = action s"
  using assms
  by (auto simp: interval_phase_def Let_def split: if_splits list.splits)

lemma bonus_phase_pairs:
  assumes "bonus_phase s = Inr s'"
  shows "early_state s' = early_state s" "early_action s' = early_action s"
    "previous_state s' = previous_state s" "previous_action s' = previous_action s"
    "score s' = score s" "max_score s' = max_score s"
  using assms
  by (auto simp: bonus_phase_def split: if_splits list.splits option.splits)

lemma late_phase_pairs:
  "early_state (world_phase (death_phase E inp (event_phase inp s))) = early_state s"
  "early_action (world_phase (death_phase E inp (event_phase inp s))) = early_action s"
  "previous_state (world_phase (death_phase E inp (event_phase inp s))) = previous_state s"
  "previous_action (world_phase (death_phase E inp (event_phase inp s))) = previous_action s"
  by (simp_all add: world_phase_def death_phase_def event_phase_def Let_def)

lemma pairs_after_interval:
  assumes p: "pairs_inv t h0" and i: "interval_inv t"
    and s1: "interval_phase E inp (before_interval E t) = Inr s1"
  shows "pairs_inv s1 (if frame_clock t mod 15 = 14
                       then h0 @ [(state (before_interval E t), action (before_interval E t))]
                       else h0)"
proof (cases "frame_clock t mod 15 = 14")
  case True
  then have d: "fps_to_next_action (before_interval E t) = 15"
    using interval_due [OF i] by simp
  note r = interval_phase_rotation [OF s1 d]
  have len: "2 \<le> length h0" and l: "(previous_state t, previous_action t) = last h0"
    using p by (simp_all add: pairs_inv_def)
  from len have ne: "h0 \<noteq> []" and lt: "length h0 - 1 < length h0"
    by auto
  have "(h0 @ [(state (before_interval E t), action (before_interval E t))])
               ! (length h0 - 1) = h0 ! (length h0 - 1)"
    using lt by (simp only: nth_append if_True)
  also have "\<dots> = (previous_state t, previous_action t)"
    using ne by (simp add: l last_conv_nth)
  finally have n: "(h0 @ [(state (before_interval E t), action (before_interval E t))])
               ! (length h0 - 1) = (previous_state t, previous_action t)" .
  have e: "length (h0 @ [(state (before_interval E t), action (before_interval E t))]) - 2
             = length h0 - 1"
    by simp
  show ?thesis
    unfolding pairs_inv_def if_P [OF True] e n
    using len by (simp add: r before_interval_fields)
next
  case False
  then have "fps_to_next_action (before_interval E t) \<noteq> 15"
    using interval_due [OF i] by simp
  from interval_phase_skip [OF this, of E inp] s1 have "s1 = before_interval E t"
    by simp
  then show ?thesis
    using False p by (simp add: pairs_inv_def before_interval_fields)
qed

lemma pairs_after_frame:
  assumes p: "pairs_inv t h0" and i: "interval_inv t" and f: "frame E inp t = Inr s'"
  shows "pairs_inv s' (if frame_clock t mod 15 = 14
                       then h0 @ [(state (before_interval E t), action (before_interval E t))]
                       else h0)"
proof -
  from f obtain s1 s2 where
    s1: "interval_phase E inp (before_interval E t) = Inr s1"
    and b: "bonus_phase s1 = Inr s2"
    and w: "s' = world_phase (death_phase E inp (event_phase inp s2))"
    by (auto simp: frame_def before_interval_def split: sum.splits)
  from pairs_after_interval [OF p i s1] show ?thesis
    by (simp add: pairs_inv_def w late_phase_pairs bonus_phase_pairs [OF b])
qed

lemma pairs_loop_head:
  "pairs_inv s h \<Longrightarrow> pairs_inv (loop_head E s) (if done_flag s then initial_pairs else h)"
  by (simp add: loop_head_def pairs_inv_def new_life_def start_life_def initial_pairs_def)

lemma run_pairs:
  "pairs_inv s0 h \<Longrightarrow> interval_inv s0 \<Longrightarrow> safe s0 \<Longrightarrow> run E inps s0 = Inr s
   \<Longrightarrow> pairs_inv s (recorded E inps s0 h)"
proof (induction inps arbitrary: s0 h)
  case Nil
  then show ?case by simp
next
  case (Cons a inps)
  let ?t = "loop_head E s0"
  let ?h0 = "if done_flag s0 then initial_pairs else h"
  let ?h1 = "if frame_clock ?t mod 15 = 14
             then ?h0 @ [(state (before_interval E ?t), action (before_interval E ?t))]
             else ?h0"
  from Cons.prems(4) obtain s1 where f: "frame E a ?t = Inr s1"
    and r: "run E inps s1 = Inr s"
    by (auto simp: loop_head_def split: sum.splits)
  have t: "pairs_inv ?t ?h0" "interval_inv ?t" "safe ?t"
    using Cons.prems by (simp_all add: pairs_loop_head loop_head_interval loop_head_safe)
  have 1: "pairs_inv s1 ?h1"
    by (rule pairs_after_frame [OF t(1) t(2) f])
  have 2: "interval_inv s1"
    by (rule frame_interval_inv [OF t(2) f])
  have 3: "safe s1"
    using frame_safe [OF t(3), of E a] f by auto
  show ?case
    using Cons.IH [OF 1 2 3 r] f by (simp add: Let_def)
qed

lemma main_pairs:
  assumes "main E g0 inps = Inr s"
  shows "pairs_inv s (history E g0 inps)"
  unfolding history_def
proof (rule run_pairs)
  show "pairs_inv (main_init E g0) initial_pairs"
    by (simp add: pairs_inv_def main_init_def start_life_def initial_pairs_def)
  show "interval_inv (main_init E g0)" by (rule interval_main_init)
  show "safe (main_init E g0)" by (rule safe_main_init)
  show "run E inps (main_init E g0) = Inr s"
    using assms by (simp add: main_def)
qed

subsection \<open>The remembered pipe\<close>

lemma before_interval_queue:
  assumes "queue_inv t"
  shows "sorted_wrt (<) (map pipe_x (pipes (before_interval E t)))"
    and "\<forall>p \<in> set (pipes (before_interval E t)). pipe_x p \<le> 567"
    and "sorted_wrt (<) (map pipe_id (pipes (before_interval E t)))"
    and "\<forall>p \<in> set (pipes (before_interval E t)). pipe_id p < next_id (before_interval E t)"
proof -
  let ?pp = "fst (PipePair_init E (next_id t) (rand (choose_phase E t)))"
  have pp: "pipes (before_interval E t)
              = (if frame_clock t mod 180 = 0 then pipes t @ [?pp] else pipes t)"
    and pn: "next_id (before_interval E t)
              = (if frame_clock t mod 180 = 0 then Suc (next_id t) else next_id t)"
    by (simp_all add: before_interval_def spawn_phase_pipes choose_phase_fields)
  show "sorted_wrt (<) (map pipe_x (pipes (before_interval E t)))"
    using assms by (auto simp: pp queue_inv_def sorted_wrt_append PipePair_init_fields)
  show "\<forall>p \<in> set (pipes (before_interval E t)). pipe_x p \<le> 567"
    using assms by (auto simp: pp queue_inv_def PipePair_init_fields intro: less_imp_le)
  show "sorted_wrt (<) (map pipe_id (pipes (before_interval E t)))"
    using assms by (auto simp: pp queue_inv_def sorted_wrt_append PipePair_init_fields)
  show "\<forall>p \<in> set (pipes (before_interval E t)). pipe_id p < next_id (before_interval E t)"
    using assms by (auto simp: pp pn queue_inv_def PipePair_init_fields intro: less_SucI)
qed

lemma before_interval_old:
  assumes "old_front t" and "safe t"
  shows "\<exists>op. old_pipe (before_interval E t) = Some op
           \<and> op \<le> pipe_id (hd (pipes (before_interval E t)))"
proof (cases "frame_clock t mod 180 = 0")
  case True
  then show ?thesis
    by (simp add: before_interval_def spawn_phase_pipes choose_phase_fields)
next
  case False
  then have "0 < frame_clock t"
    by (cases "frame_clock t") simp_all
  then show ?thesis
    using assms(1) False
    by (simp add: old_front_def before_interval_def spawn_phase_pipes choose_phase_fields)
qed

lemma sorted_hd_le:
  assumes "sorted_wrt (<) (map pipe_id ps)" and "p \<in> set ps"
  shows "pipe_id (hd ps) \<le> pipe_id p"
  using assms by (cases ps) (auto intro: less_imp_le)

lemma moved_hd:
  assumes "sorted_wrt (<) (map pipe_id ps)" and "moved b ps \<noteq> []"
  shows "pipe_id (hd ps) \<le> pipe_id (hd (moved b ps))"
proof -
  have ne: "pop_invisible ps \<noteq> []"
    using assms(2) by (auto simp: moved_def)
  have "pipe_id (hd (moved b ps)) = hd (map pipe_id (moved b ps))"
    using assms(2) by (simp add: hd_map)
  also have "\<dots> = pipe_id (hd (pop_invisible ps))"
    using ne by (simp add: moved_map hd_map)
  finally have e: "pipe_id (hd (moved b ps)) = pipe_id (hd (pop_invisible ps))" .
  have "hd (pop_invisible ps) \<in> set ps"
    using ne set_pop [of ps] by (meson hd_in_set subsetD)
  from sorted_hd_le [OF assms(1) this] show ?thesis
    by (simp add: e)
qed

lemma frame_old_front:
  assumes o: "old_front t" and s: "safe t" and q: "queue_inv t"
    and f: "frame E inp t = Inr s'"
  shows "old_front s'"
proof -
  let ?c = "before_interval E t"
  from f obtain s1 s2 where
    s1: "interval_phase E inp ?c = Inr s1"
    and b: "bonus_phase s1 = Inr s2"
    and w: "s' = world_phase (death_phase E inp (event_phase inp s2))"
    by (auto simp: frame_def before_interval_def split: sum.splits)
  from before_interval_old [OF o s, of E] obtain op where
    op: "old_pipe ?c = Some op" "op \<le> pipe_id (hd (pipes ?c))"
    by blast
  have "old_pipe s2 = old_pipe s1 \<or> old_pipe s2 = Some (pipe_id (hd (pipes s1)))"
    by (rule bonus_phase_old_pipe [OF b])
  then obtain op2 where op2: "old_pipe s2 = Some op2" "op2 \<le> pipe_id (hd (pipes ?c))"
    using op by (auto simp: interval_phase_fields [OF s1])
  have o': "old_pipe s' = Some op2"
    by (simp add: w world_phase_fields late_phase_fields op2)
  from frame_safe [OF s, of E inp] f have "safe s'" by auto
  moreover have "0 < frame_clock s'"
    by (simp add: frame_effect(1) [OF f])
  ultimately have ne: "pipes s' \<noteq> []"
    by (simp add: safe_def)
  have p': "pipes s' = moved (bird s') (pipes ?c)"
    using frame_effect(3) [OF f] by (simp add: before_interval_def)
  have "pipe_id (hd (pipes ?c)) \<le> pipe_id (hd (pipes s'))"
    unfolding p' using before_interval_queue(3) [OF q] ne
    by (intro moved_hd) (simp_all add: p')
  then show ?thesis
    using o' op2(2) by (simp add: old_front_def)
qed

lemma run_invariants:
  "\<exists>s. main E g0 inps = Inr s \<and> safe s \<and> interval_inv s \<and> queue_inv s \<and> old_front s"
proof -
  have "\<exists>s. run E inps (main_init E g0) = Inr s
          \<and> (safe s \<and> interval_inv s \<and> queue_inv s \<and> old_front s)"
  proof (rule run_total)
    fix inp and s :: "'a game"
    assume "safe s \<and> interval_inv s \<and> queue_inv s \<and> old_front s"
    then show "\<exists>s'. frame E inp s = Inr s'
                 \<and> (safe s' \<and> interval_inv s' \<and> queue_inv s' \<and> old_front s')"
      using frame_safe [of s E inp] frame_interval_inv [of s E inp] frame_queue [of s E inp]
        frame_old_front [of s E inp]
      by blast
  next
    fix s :: "'a game"
    assume "safe s \<and> interval_inv s \<and> queue_inv s \<and> old_front s"
    then show "safe (new_life E s) \<and> interval_inv (new_life E s) \<and> queue_inv (new_life E s)
                 \<and> old_front (new_life E s)"
      by (simp add: safe_new_life interval_new_life queue_new_life)
         (simp add: old_front_def new_life_def start_life_def)
  next
    show "safe (main_init E g0) \<and> interval_inv (main_init E g0) \<and> queue_inv (main_init E g0)
            \<and> old_front (main_init E g0)"
      by (simp add: safe_main_init interval_main_init queue_main_init)
         (simp add: old_front_def main_init_def start_life_def)
  qed
  then show ?thesis
    by (simp add: main_def)
qed

lemma loop_head_inv:
  assumes "safe s" "interval_inv s" "queue_inv s" "old_front s"
  shows "safe (loop_head E s)" "interval_inv (loop_head E s)" "queue_inv (loop_head E s)"
    "old_front (loop_head E s)"
  using assms
  by (simp_all add: loop_head_def safe_new_life interval_new_life queue_new_life)
     (simp add: old_front_def new_life_def start_life_def)

lemma bonus_phase_fires:
  assumes "old_pipe s = Some op" and "pipes s = p0 # ps" and "op \<noteq> pipe_id p0"
    and "dead s = Some False" and "score s > max_score s"
  shows "bonus_phase s = Inr (s\<lparr>dict := (dict s)((early_state s, early_action s) \<mapsto>
                                 dict_get (dict s) (early_state s, early_action s) 0 + 100),
                               old_pipe := Some (pipe_id p0)\<rparr>)"
  using assms by (simp add: bonus_phase_def)

lemma bonus_phase_idle:
  assumes "bonus_phase s = Inr s'" and "old_pipe s = Some op" and "pipes s = p0 # ps"
    and "\<not> (op \<noteq> pipe_id p0 \<and> dead s = Some False \<and> score s > max_score s)"
  shows "s' = s"
  using assms by (auto simp: bonus_phase_def split: if_splits option.splits)

subsection \<open>The run in which the bird stays in the air\<close>

lemma climb_from:
  "n \<le> 20 \<Longrightarrow>
   (Bird_update 1 ^^ n) \<lparr>bird_x = x, bird_y = y, msec_to_climb = 3333 / 10\<rparr>
     = \<lparr>bird_x = x, bird_y = y - 5 * (\<Sum>k<n. 1 - cos (real k * theta)),
        msec_to_climb = 3333 / 10 - real n * (50 / 3)\<rparr>"
proof (induction n)
  case 0
  then show ?case by simp
next
  case (Suc n)
  then have n: "n < 20" and ih: "(Bird_update 1 ^^ n) \<lparr>bird_x = x, bird_y = y, msec_to_climb = 3333 / 10\<rparr>
     = \<lparr>bird_x = x, bird_y = y - 5 * (\<Sum>k<n. 1 - cos (real k * theta)),
        msec_to_climb = 3333 / 10 - real n * (50 / 3)\<rparr>"
    by simp_all
  have "Bird_update 1 \<lparr>bird_x = x, bird_y = y - 5 * (\<Sum>k<n. 1 - cos (real k * theta)),
        msec_to_climb = 3333 / 10 - real n * (50 / 3)\<rparr>
     = \<lparr>bird_x = x, bird_y = y - 5 * (\<Sum>k<n. 1 - cos (real k * theta))
            - 5 * (1 - cos (real n * theta)),
        msec_to_climb = 3333 / 10 - real (Suc n) * (50 / 3)\<rparr>"
    by (subst climb_step [of _ n]) (simp_all add: n)
  then show ?case
    by (simp add: ih algebra_simps)
qed

lemma climb_then_sink:
  assumes "20 \<le> r"
  shows "(Bird_update 1 ^^ r) \<lparr>bird_x = x, bird_y = y, msec_to_climb = 3333 / 10\<rparr>
     = \<lparr>bird_x = x, bird_y = y - climb_height + 3 * real (r - 20), msec_to_climb = - 1 / 30\<rparr>"
proof -
  let ?b0 = "\<lparr>bird_x = x, bird_y = y, msec_to_climb = 3333 / 10\<rparr>"
  have "r = (r - 20) + 20"
    using assms by simp
  then have "(Bird_update 1 ^^ r) ?b0 = (Bird_update 1 ^^ (r - 20)) ((Bird_update 1 ^^ 20) ?b0)"
    using funpow_add [of "r - 20" 20 "Bird_update 1"] by (metis comp_apply)
  also have "(Bird_update 1 ^^ 20) ?b0
      = \<lparr>bird_x = x, bird_y = y - climb_height, msec_to_climb = - 1 / 30\<rparr>"
    by (subst climb_from) (simp_all add: climb_height_def)
  also have "(Bird_update 1 ^^ (r - 20)) \<dots>
      = \<lparr>bird_x = x, bird_y = y - climb_height + 3 * real (r - 20), msec_to_climb = - 1 / 30\<rparr>"
    by (subst sink_n) simp_all
  finally show ?thesis .
qed

lemma partial_climb:
  assumes "n \<le> 20"
  shows "0 \<le> 5 * (\<Sum>k<n. 1 - cos (real k * theta))"
    and "5 * (\<Sum>k<n. 1 - cos (real k * theta)) \<le> climb_height"
proof -
  have nn: "0 \<le> 1 - cos (real k * theta)" for k
    by simp
  have "0 \<le> (\<Sum>k<n. 1 - cos (real k * theta))"
    by (rule sum_nonneg) (simp add: nn)
  then show "0 \<le> 5 * (\<Sum>k<n. 1 - cos (real k * theta))"
    by simp
  have "(\<Sum>k<n. 1 - cos (real k * theta)) \<le> (\<Sum>k<20. 1 - cos (real k * theta))"
    using assms by (intro sum_mono2) (auto simp: nn)
  then show "5 * (\<Sum>k<n. 1 - cos (real k * theta)) \<le> climb_height"
    by (simp add: climb_height_def)
qed

lemma climb_height_bounds: "95 < climb_height" "climb_height < 191 / 2"
proof -
  have "climb_height = 100 - 5 * (\<Sum>k<20. cos (real k * theta))"
    by (simp add: climb_height_def sum_subtractf)
  then show "95 < climb_height" "climb_height < 191 / 2"
    using climb_sum_bounds by simp_all
qed

lemma hover_cycle:
  "r < 60 \<Longrightarrow> hover_bird (60 * j + Suc r)
     = (Bird_update 1 ^^ Suc r) ((hover_bird (60 * j))\<lparr>msec_to_climb := CLIMB_DURATION\<rparr>)"
proof (induction r)
  case 0
  then show ?case by simp
next
  case (Suc r)
  have "(60 * j + Suc r) mod 60 = Suc r mod 60"
    by (rule mod_mult_self4)
  also have "\<dots> = Suc r"
    using Suc.prems by simp
  finally have m: "(60 * j + Suc r) mod 60 \<noteq> 0"
    by simp
  have "hover_bird (60 * j + Suc (Suc r)) = hover_bird (Suc (60 * j + Suc r))"
    by simp
  also have "\<dots> = Bird_update 1 (hover_bird (60 * j + Suc r))"
    using m by (simp only: hover_bird.simps if_False)
  finally show ?case
    using Suc by simp
qed

lemma hover_start:
  "hover_bird (60 * j) = \<lparr>bird_x = 50, bird_y = 240 + real j * (120 - climb_height),
                          msec_to_climb = (if j = 0 then 2 else - 1 / 30)\<rparr>"
proof (induction j)
  case 0
  then show ?case by simp
next
  case (Suc j)
  have "60 * Suc j = 60 * j + Suc 59"
    by simp
  then have "hover_bird (60 * Suc j) = hover_bird (60 * j + Suc 59)"
    by (simp only:)
  also have "\<dots> = (Bird_update 1 ^^ Suc 59)
       ((hover_bird (60 * j))\<lparr>msec_to_climb := CLIMB_DURATION\<rparr>)"
    by (rule hover_cycle) simp
  also have "(hover_bird (60 * j))\<lparr>msec_to_climb := CLIMB_DURATION\<rparr>
       = \<lparr>bird_x = 50, bird_y = 240 + real j * (120 - climb_height), msec_to_climb = 3333 / 10\<rparr>"
    by (simp add: Suc CLIMB_DURATION_def)
  also have "(Bird_update 1 ^^ Suc 59) \<dots>
       = \<lparr>bird_x = 50, bird_y = 240 + real j * (120 - climb_height) - climb_height
              + 3 * real (Suc 59 - 20), msec_to_climb = - 1 / 30\<rparr>"
    by (rule climb_then_sink) simp
  finally show ?case
    by (simp add: algebra_simps)
qed

lemma hover_in_cycle:
  assumes "r < 60"
  shows "hover_bird (60 * j + Suc r) =
     (if Suc r \<le> 20
      then \<lparr>bird_x = 50,
            bird_y = 240 + real j * (120 - climb_height)
                       - 5 * (\<Sum>k<Suc r. 1 - cos (real k * theta)),
            msec_to_climb = 3333 / 10 - real (Suc r) * (50 / 3)\<rparr>
      else \<lparr>bird_x = 50,
            bird_y = 240 + real j * (120 - climb_height) - climb_height + 3 * real (Suc r - 20),
            msec_to_climb = - 1 / 30\<rparr>)"
proof -
  have b: "(hover_bird (60 * j))\<lparr>msec_to_climb := CLIMB_DURATION\<rparr>
       = \<lparr>bird_x = 50, bird_y = 240 + real j * (120 - climb_height), msec_to_climb = 3333 / 10\<rparr>"
    by (simp add: hover_start CLIMB_DURATION_def)
  show ?thesis
  proof (cases "Suc r \<le> 20")
    case True
    then show ?thesis
      unfolding hover_cycle [OF assms] b by (subst climb_from) simp_all
  next
    case False
    then have "20 \<le> Suc r" by simp
    from climb_then_sink [OF this] False show ?thesis
      unfolding hover_cycle [OF assms] b by simp
  qed
qed

lemma hover_bird_bounds:
  assumes "n < 240"
  shows "bird_x (hover_bird n) = 50" "144 < bird_y (hover_bird n)" "bird_y (hover_bird n) < 341"
proof -
  define j where "j = n div 60"
  define r where "r = n mod 60"
  have n: "n = 60 * j + r"
    by (simp add: j_def r_def)
  have "j < 4"
    unfolding j_def using assms by (intro less_mult_imp_div_less) simp
  then have j: "0 \<le> real j" "real j \<le> 3"
    by simp_all
  note c = climb_height_bounds
  define d where "d = 120 - climb_height"
  have d: "0 \<le> d" "d \<le> 25"
    using c by (simp_all add: d_def)
  have y1: "0 \<le> real j * d"
    using j(1) d(1) by (rule mult_nonneg_nonneg)
  have "real j * d \<le> 3 * d"
    using j(2) d(1) by (rule mult_right_mono)
  then have y2: "real j * d \<le> 75"
    using d(2) by linarith
  have y: "0 \<le> real j * (120 - climb_height)" "real j * (120 - climb_height) \<le> 75"
    using y1 y2 by (simp_all add: d_def)
  have r60: "r < 60"
    by (simp add: r_def)
  have "bird_x (hover_bird n) = 50 \<and> 144 < bird_y (hover_bird n) \<and> bird_y (hover_bird n) < 341"
  proof (cases r)
    case 0
    then have "bird_x (hover_bird n) = 50"
      "bird_y (hover_bird n) = 240 + real j * (120 - climb_height)"
      by (simp_all add: n hover_start)
    then show ?thesis
      using y c by linarith
  next
    case (Suc r')
    then have r': "r' < 60"
      using r60 by simp
    show ?thesis
    proof (cases "Suc r' \<le> 20")
      case True
      note p = partial_climb [OF True]
      have "hover_bird n = \<lparr>bird_x = 50,
            bird_y = 240 + real j * (120 - climb_height)
                       - 5 * (\<Sum>k<Suc r'. 1 - cos (real k * theta)),
            msec_to_climb = 3333 / 10 - real (Suc r') * (50 / 3)\<rparr>"
        unfolding n Suc hover_in_cycle [OF r'] using True by (simp only: if_True)
      then have "bird_x (hover_bird n) = 50"
        "bird_y (hover_bird n) = 240 + real j * (120 - climb_height)
                       - 5 * (\<Sum>k<Suc r'. 1 - cos (real k * theta))"
        by simp_all
      then show ?thesis
        using y c p by linarith
    next
      case False
      have "hover_bird n = \<lparr>bird_x = 50,
            bird_y = 240 + real j * (120 - climb_height) - climb_height + 3 * real (Suc r' - 20),
            msec_to_climb = - 1 / 30\<rparr>"
        unfolding n Suc hover_in_cycle [OF r'] using False by (simp only: if_False)
      then have e: "bird_x (hover_bird n) = 50"
        "bird_y (hover_bird n) = 240 + real j * (120 - climb_height) - climb_height
             + 3 * real (Suc r' - 20)"
        by simp_all
      have "Suc r' - 20 \<le> 40"
        using r' by simp
      then have "real (Suc r' - 20) \<le> 40"
        by (metis of_nat_le_iff of_nat_numeral)
      moreover have "0 \<le> real (Suc r' - 20)"
        by simp
      ultimately show ?thesis
        using y c e by linarith
    qed
  qed
  then show "bird_x (hover_bird n) = 50" "144 < bird_y (hover_bird n)"
    "bird_y (hover_bird n) < 341"
    by simp_all
qed

lemma hover_bird_29: "hover_bird 29 = bird29"
  using hover_cycle [of 28 0]
  by (simp add: bird29_def main_init_def start_life_def WIN_HEIGHT_def Bird_HEIGHT_def)

text \<open>The pipes of that run.\<close>

lemma real_le_numeral: "n \<le> numeral k \<Longrightarrow> real n \<le> numeral k"
  by (metis of_nat_le_iff of_nat_numeral)

lemma real_ge_numeral: "numeral k \<le> n \<Longrightarrow> numeral k \<le> real n"
  by (metis of_nat_le_iff of_nat_numeral)

lemma moved_p0:
  assumes "n < 180" and "bird_x b = 50"
  shows "moved b [hover_p0 n] = [hover_p0 (Suc n)]"
    and "filter (passed b) (map (PipePair_update 1) (pop_invisible [hover_p0 n])) = []"
proof -
  have "n \<le> 179" using assms(1) by simp
  then have r: "real n \<le> 179" "0 \<le> real n"
    by (simp_all add: real_le_numeral)
  have v: "visible (hover_p0 n)"
    using r by (simp add: visible_def hover_p0_def PipePair_WIDTH_def WIN_WIDTH_def)
  have c: "\<not> 200 \<le> n" "\<not> 200 \<le> Suc n"
    using assms(1) by simp_all
  have np: "\<not> passed b (PipePair_update 1 (hover_p0 n))"
    using r assms(2)
    by (simp add: passed_def PipePair_update_def pipe_step hover_p0_def PipePair_WIDTH_def)
  have u: "PipePair_update 1 (hover_p0 n) = hover_p0 (Suc n)"
    using c by (simp add: PipePair_update_def pipe_step hover_p0_def algebra_simps)
  show "moved b [hover_p0 n] = [hover_p0 (Suc n)]"
    using v np by (simp add: moved_def pop_invisible_def u)
  show "filter (passed b) (map (PipePair_update 1) (pop_invisible [hover_p0 n])) = []"
    using v np by (simp add: pop_invisible_def)
qed

lemma moved_p01:
  assumes "180 \<le> n" and "n \<le> 215" and "bird_x b = 50"
  shows "moved b [hover_p0 n, hover_p1 n] = [hover_p0 (Suc n), hover_p1 (Suc n)]"
    and "int (length (filter (passed b)
            (map (PipePair_update 1) (pop_invisible [hover_p0 n, hover_p1 n]))))
          = (if n = 199 then 1 else 0)"
proof -
  have r: "real n \<le> 215" "180 \<le> real n"
    using assms(1,2) by (simp_all add: real_le_numeral real_ge_numeral)
  have v: "visible (hover_p0 n)"
    using r by (simp add: visible_def hover_p0_def PipePair_WIDTH_def WIN_WIDTH_def)
  have p1: "\<not> passed b (PipePair_update 1 (hover_p1 n))"
    using r assms(3)
    by (simp add: passed_def PipePair_update_def pipe_step hover_p1_def PipePair_WIDTH_def)
  have u1: "PipePair_update 1 (hover_p1 n) = hover_p1 (Suc n)"
    by (simp add: PipePair_update_def pipe_step hover_p1_def algebra_simps)
  have x: "(567 - 3 * real n - 3 + 80 < 50) = (199 \<le> n)"
  proof
    assume "567 - 3 * real n - 3 + 80 < 50"
    then have "real 198 < real n" by simp
    then have "198 < n" by (simp only: of_nat_less_iff)
    then show "199 \<le> n" by simp
  next
    assume "199 \<le> n"
    then have "199 \<le> real n" by (simp add: real_ge_numeral)
    then show "567 - 3 * real n - 3 + 80 < 50" by simp
  qed
  have p0: "passed b (PipePair_update 1 (hover_p0 n)) = (n = 199)"
    using assms(3) x
    by (auto simp: passed_def PipePair_update_def pipe_step hover_p0_def PipePair_WIDTH_def)
  have u0: "(if passed b (PipePair_update 1 (hover_p0 n))
             then (PipePair_update 1 (hover_p0 n))\<lparr>score_counted := True\<rparr>
             else PipePair_update 1 (hover_p0 n)) = hover_p0 (Suc n)"
    unfolding p0
    by (auto simp: PipePair_update_def pipe_step hover_p0_def algebra_simps)
  have pop: "pop_invisible [hover_p0 n, hover_p1 n] = [hover_p0 n, hover_p1 n]"
    using v by (simp add: pop_invisible_def)
  show "moved b [hover_p0 n, hover_p1 n] = [hover_p0 (Suc n), hover_p1 (Suc n)]"
    unfolding moved_def pop using u0 p1 u1 by simp
  show "int (length (filter (passed b)
            (map (PipePair_update 1) (pop_invisible [hover_p0 n, hover_p1 n]))))
          = (if n = 199 then 1 else 0)"
  proof (cases "n = 199")
    case True
    with p0 have "passed b (PipePair_update 1 (hover_p0 n))" by simp
    then show ?thesis
      unfolding pop using p1 True by simp
  next
    case False
    with p0 have "\<not> passed b (PipePair_update 1 (hover_p0 n))" by simp
    then show ?thesis
      unfolding pop using p1 False by simp
  qed
qed

lemma moved_216:
  assumes "bird_x b = 50"
  shows "moved b [hover_p0 216, hover_p1 216] = [hover_p1 217]"
    and "filter (passed b)
            (map (PipePair_update 1) (pop_invisible [hover_p0 216, hover_p1 216])) = []"
proof -
  have pop: "pop_invisible [hover_p0 216, hover_p1 216] = [hover_p1 216]"
    by (simp add: pop_invisible_def visible_def hover_p0_def hover_p1_def PipePair_WIDTH_def
          WIN_WIDTH_def)
  have p1: "\<not> passed b (PipePair_update 1 (hover_p1 216))"
    using assms
    by (simp add: passed_def PipePair_update_def pipe_step hover_p1_def PipePair_WIDTH_def)
  have u1: "PipePair_update 1 (hover_p1 216) = hover_p1 217"
    by (simp add: PipePair_update_def pipe_step hover_p1_def)
  show "moved b [hover_p0 216, hover_p1 216] = [hover_p1 217]"
    unfolding moved_def pop using p1 u1 by simp
  show "filter (passed b)
            (map (PipePair_update 1) (pop_invisible [hover_p0 216, hover_p1 216])) = []"
    unfolding pop using p1 by simp
qed

lemma hover_moved:
  assumes "n < 217" and "bird_x b = 50"
  shows "moved b (hover_queue n) = hover_pipes (Suc n)"
    and "int (length (filter (passed b)
            (map (PipePair_update 1) (pop_invisible (hover_queue n)))))
          = (if n = 199 then 1 else 0)"
proof -
  consider "n < 180" | "180 \<le> n" "n \<le> 215" | "n = 216"
    using assms(1) by linarith
  then have "moved b (hover_queue n) = hover_pipes (Suc n)
     \<and> int (length (filter (passed b)
            (map (PipePair_update 1) (pop_invisible (hover_queue n)))))
          = (if n = 199 then 1 else 0)"
  proof cases
    case 1
    then show ?thesis
      using moved_p0 [OF 1 assms(2)] by (simp add: hover_queue_def hover_pipes_def)
  next
    case 2
    then show ?thesis
      using moved_p01 [OF 2 assms(2)] by (simp add: hover_queue_def hover_pipes_def)
  next
    case 3
    then show ?thesis
      using moved_216 [OF assms(2)] by (simp add: hover_queue_def hover_pipes_def)
  qed
  then show "moved b (hover_queue n) = hover_pipes (Suc n)"
    and "int (length (filter (passed b)
            (map (PipePair_update 1) (pop_invisible (hover_queue n)))))
          = (if n = 199 then 1 else 0)"
    by simp_all
qed

text \<open>The phases of a frame under \<open>test_env\<close>.\<close>

lemma test_env_no_collision: "\<not> collides_with test_env k b p"
  by (simp add: collides_with_def test_env_def)

lemma choose_decision:
  assumes "fps_to_next_action t = 0" and "random_state1 (rand t) = 1 # v # g"
    and "v = 0 \<or> v = 1" and "max_score t \<le> score t"
  shows "bird (choose_phase test_env t)
           = (if v = 1 then (bird t)\<lparr>msec_to_climb := CLIMB_DURATION\<rparr> else bird t)"
    and "random_state1 (rand (choose_phase test_env t)) = g"
  using assms
  by (auto simp: choose_phase_def determine_action_def test_env_def scripted_randint_def Let_def)

lemma choose_idle:
  assumes "fps_to_next_action t \<noteq> 0"
  shows "bird (choose_phase E t) = bird t" and "rand (choose_phase E t) = rand t"
  using assms by (simp_all add: choose_phase_def)

lemma spawn_state1: "random_state1 (rand (spawn_phase E s)) = random_state1 (rand s)"
  by (simp add: spawn_phase_def PipePair_init_def Let_def split: prod.splits)

lemma spawn_test_env:
  assumes "frame_clock s mod 180 = 0" and "random_state0 (rand s) = b # g"
    and "1 \<le> b" and "b \<le> 10"
  shows "pipes (spawn_phase test_env s)
           = pipes s @ [\<lparr>pipe_id = next_id s, pipe_x = 567, score_counted = False,
                         bottom_pieces = b + 1, top_pieces = 11 - b\<rparr>]"
    and "random_state0 (rand (spawn_phase test_env s)) = g"
  using assms
  by (simp_all add: spawn_phase_def spawn_cond PipePair_init_def test_env_def
        scripted_randint_def total_pipe_body_pieces_def WIN_HEIGHT_def Bird_HEIGHT_def
        PIECE_HEIGHT_def WIN_WIDTH_def Let_def)

lemma mod180_small: "n < 217 \<Longrightarrow> (n mod 180 = 0) = (n = 0 \<or> n = 180)" for n :: nat
proof (cases "n < 180")
  case True
  then show ?thesis by simp
next
  case False
  assume n: "n < 217"
  from False have "n mod 180 = (n - 180) mod 180"
    by (simp add: le_mod_geq)
  also have "\<dots> = n - 180"
    using n by simp
  finally show ?thesis
    using False by auto
qed

lemma mod60_15: "n mod 60 = 0 \<Longrightarrow> n mod 15 = (0::nat)"
proof -
  assume a: "n mod 60 = 0"
  have "n mod 60 mod 15 = n mod 15"
    by (rule mod_mod_cancel) simp
  then show ?thesis
    using a by simp
qed

lemma interval_phase_alive:
  assumes "fps_to_next_action c = 15" and "pipes c = p0 # ps"
    and "\<not> ((\<exists>p \<in> set (pipes c). collides_with E (ticks_interval inp) (bird c) p)
              \<or> out_of_bounds (bird c))"
  shows "\<exists>s1. interval_phase E inp c = Inr s1 \<and> dead s1 = Some False
           \<and> done_flag s1 = done_flag c \<and> fps_to_next_action s1 = 0"
  using assms by (simp add: interval_phase_def Let_def)

lemma world_phase_table:
  "score (world_phase s) = score s + int (length (filter (passed (Bird_update 1 (bird s)))
                                (map (PipePair_update 1) (pop_invisible (pipes s)))))"
  "done_flag (world_phase s) = done_flag s"
  "max_score (world_phase s) = max_score s"
  "dict (world_phase s) = dict s"
  "state (world_phase s) = state s"
  "previous_state (world_phase s) = previous_state s"
  "previous_action (world_phase s) = previous_action s"
  by (simp_all add: world_phase_def Let_def)

lemma Bird_update_x: "bird_x (Bird_update d b) = bird_x b"
  by (simp add: Bird_update_def Let_def)

text \<open>What the hover invariant says in the middle of a frame, before the interval block.\<close>

lemma hover_before_interval:
  assumes inv: "hover_inv n t" and n: "n < 217"
  shows "pipes (before_interval test_env t) = hover_queue n"
    and "bird (before_interval test_env t)
           = (if n mod 60 = 0 then (hover_bird n)\<lparr>msec_to_climb := CLIMB_DURATION\<rparr>
              else hover_bird n)"
    and "random_state1 (rand (before_interval test_env t)) = hover_script (Suc n) (216 - n)"
    and "random_state0 (rand (before_interval test_env t)) = (if n < 180 then [4] else [])"
    and "next_id (before_interval test_env t) = (if n < 180 then 1 else 2)"
    and "old_pipe (before_interval test_env t) = Some 0"
proof -
  let ?a = "choose_phase test_env t"
  note i = inv [unfolded hover_inv_def]
  have fc: "frame_clock t = n" and fp: "fps_to_next_action t = n mod 15"
    and pt: "pipes t = hover_pipes n" and bt: "bird t = hover_bird n"
    and r1: "random_state1 (rand t) = hover_script n (217 - n)"
    and r0: "random_state0 (rand t) = (if n = 0 then [9, 4] else if n \<le> 180 then [4] else [])"
    and ni: "next_id t = (if n = 0 then 0 else if n \<le> 180 then 1 else 2)"
    and op: "old_pipe t = (if n = 0 then None else Some 0)"
    and sc: "max_score t \<le> score t"
    using i by simp_all
  have e: "217 - n = Suc (216 - n)"
    using n by simp
  note m180 = mod180_small [OF n]
  have ab: "bird ?a = (if n mod 60 = 0 then (hover_bird n)\<lparr>msec_to_climb := CLIMB_DURATION\<rparr>
              else hover_bird n)
          \<and> random_state1 (rand ?a) = hover_script (Suc n) (216 - n)"
  proof (cases "n mod 15 = 0")
    case True
    let ?v = "if n mod 60 = 0 then 1 else 0 :: int"
    have s: "random_state1 (rand t) = 1 # ?v # hover_script (Suc n) (216 - n)"
      using True by (simp add: r1 e)
    have f0: "fps_to_next_action t = 0"
      using True fp by simp
    have v: "?v = 0 \<or> ?v = 1"
      by simp
    from choose_decision [OF f0 s v sc] show ?thesis
      by (simp add: bt)
  next
    case False
    then have n60: "n mod 60 \<noteq> 0"
      using mod60_15 [of n] by auto
    have f0: "fps_to_next_action t \<noteq> 0"
      using False fp by simp
    have "hover_script n (217 - n) = hover_script (Suc n) (216 - n)"
      using False by (simp add: e)
    then show ?thesis
      using choose_idle [OF f0, of test_env] n60 by (simp add: bt r1)
  qed
  show "bird (before_interval test_env t)
           = (if n mod 60 = 0 then (hover_bird n)\<lparr>msec_to_climb := CLIMB_DURATION\<rparr>
              else hover_bird n)"
    using ab by (simp add: before_interval_def spawn_phase_fields)
  show "random_state1 (rand (before_interval test_env t)) = hover_script (Suc n) (216 - n)"
    using ab by (simp add: before_interval_def spawn_state1)
  have a0: "random_state0 (rand ?a) = random_state0 (rand t)"
    by (rule choose_phase_state0)
  have afc: "frame_clock ?a = n" "pipes ?a = hover_pipes n"
    "next_id ?a = (if n = 0 then 0 else if n \<le> 180 then 1 else 2)"
    "old_pipe ?a = (if n = 0 then None else Some 0)"
    by (simp_all add: choose_phase_fields fc pt ni op)
  consider "n = 0" | "n = 180" | "n \<noteq> 0" "n \<noteq> 180"
    by blast
  then have "pipes (spawn_phase test_env ?a) = hover_queue n
     \<and> random_state0 (rand (spawn_phase test_env ?a)) = (if n < 180 then [4] else [])
     \<and> next_id (spawn_phase test_env ?a) = (if n < 180 then 1 else 2)
     \<and> old_pipe (spawn_phase test_env ?a) = Some 0"
  proof cases
    case 1
    have z: "frame_clock ?a mod 180 = 0"
      using 1 afc(1) by simp
    have q: "random_state0 (rand ?a) = 9 # [4]"
      using 1 a0 r0 by simp
    from spawn_test_env [OF z q] show ?thesis
      using 1 afc z
      by (simp add: spawn_phase_pipes hover_queue_def hover_pipes_def hover_p0_def
            PipePair_init_fields)
  next
    case 2
    have z: "frame_clock ?a mod 180 = 0"
      using 2 afc(1) by simp
    have q: "random_state0 (rand ?a) = 4 # []"
      using 2 a0 r0 by simp
    from spawn_test_env [OF z q] show ?thesis
      using 2 afc z
      by (simp add: spawn_phase_pipes hover_queue_def hover_pipes_def hover_p0_def
            hover_p1_def PipePair_init_fields)
  next
    case 3
    then have z: "frame_clock ?a mod 180 \<noteq> 0"
      using m180 afc(1) by simp
    show ?thesis
      using 3 z afc a0 r0 n
      by (auto simp: spawn_phase_pipes hover_queue_def hover_pipes_def)
  qed
  then show "pipes (before_interval test_env t) = hover_queue n"
    and "random_state0 (rand (before_interval test_env t)) = (if n < 180 then [4] else [])"
    and "next_id (before_interval test_env t) = (if n < 180 then 1 else 2)"
    and "old_pipe (before_interval test_env t) = Some 0"
    by (simp_all add: before_interval_def)
qed

lemma hover_alive:
  assumes inv: "hover_inv n t" and n: "n < 217"
  shows "\<not> ((\<exists>p \<in> set (pipes (before_interval test_env t)).
               collides_with test_env k (bird (before_interval test_env t)) p)
            \<or> out_of_bounds (bird (before_interval test_env t)))"
proof -
  have "n < 240" using n by simp
  note b = hover_bird_bounds [OF this]
  have "bird_y (bird (before_interval test_env t)) = bird_y (hover_bird n)"
    using inv by (simp add: before_interval_fields hover_inv_def)
  then show ?thesis
    using b by (simp add: test_env_no_collision out_of_bounds_def WIN_HEIGHT_def Bird_HEIGHT_def)
qed

lemma hover_step:
  assumes inv: "hover_inv n t" and n: "n < 217"
  shows "\<exists>s'. frame test_env no_input t = Inr s' \<and> hover_inv (Suc n) s'"
proof -
  let ?c = "before_interval test_env t"
  note i = inv [unfolded hover_inv_def]
  note c = hover_before_interval [OF inv n]
  note alive = hover_alive [OF inv n]
  have cq: "pipes ?c = hover_p0 n # tl (hover_queue n)"
    by (simp add: c(1) hover_queue_def)
  have cf: "fps_to_next_action ?c = Suc (n mod 15)" "done_flag ?c = False"
    "dead ?c = (if n < 15 then None else Some False)" "score ?c = (if n < 200 then 0 else 1)"
    "max_score ?c = 0" "frame_clock ?c = n"
    using i by (simp_all add: before_interval_fields)
  have "\<exists>s1. interval_phase test_env no_input ?c = Inr s1
          \<and> dead s1 = (if n mod 15 = 14 then Some False else dead ?c)
          \<and> done_flag s1 = False
          \<and> fps_to_next_action s1 = Suc n mod 15
          \<and> (n mod 15 \<noteq> 14 \<longrightarrow> s1 = ?c)"
  proof (cases "n mod 15 = 14")
    case True
    then have "fps_to_next_action ?c = 15"
      by (simp add: cf)
    from interval_phase_alive [OF this cq alive [of "ticks_interval no_input"]] show ?thesis
      using True by (auto simp: cf mod_Suc)
  next
    case False
    then have "fps_to_next_action ?c \<noteq> 15"
      by (simp add: cf)
    from interval_phase_skip [OF this, of test_env no_input] show ?thesis
      using False by (simp add: cf mod_Suc)
  qed
  then obtain s1 where s1: "interval_phase test_env no_input ?c = Inr s1"
    and d1: "dead s1 = (if n mod 15 = 14 then Some False else dead ?c)"
    and g1: "done_flag s1 = False"
    and f1: "fps_to_next_action s1 = Suc n mod 15"
    and k1: "n mod 15 \<noteq> 14 \<longrightarrow> s1 = ?c"
    by blast
  note u = interval_phase_fields [OF s1]
  have b: "bonus_phase s1 = Inr s1"
    by (simp add: bonus_phase_def u(2) u(6) cq c(6) hover_p0_def)
  have al1: "\<not> ((\<exists>p \<in> set (pipes s1). collides_with test_env (ticks_frame no_input) (bird s1) p)
              \<or> out_of_bounds (bird s1))"
    using alive [of "ticks_frame no_input"] by (simp add: u)
  have l: "death_phase test_env no_input (event_phase no_input s1) = s1"
  proof -
    have "event_phase no_input s1 = s1"
      by (simp add: event_phase_def no_input_def)
    then show ?thesis
      using al1 by (simp add: death_phase_def)
  qed
  have f: "frame test_env no_input t = Inr (world_phase s1)"
    using s1 b l by (simp add: frame_def before_interval_def [symmetric])
  let ?w = "world_phase s1"
  have n240: "n < 240" using n by simp
  have bx: "bird_x (Bird_update 1 (bird s1)) = 50"
    using hover_bird_bounds(1) [OF n240] by (auto simp: Bird_update_x u c)
  note mv = hover_moved [OF n bx]
  have h1: "frame_clock ?w = Suc n"
    by (simp add: world_phase_fields u cf)
  have h2: "\<not> done_flag ?w"
    by (simp add: world_phase_table g1)
  have h3: "bird ?w = hover_bird (Suc n)"
    by (simp add: world_phase_fields u c)
  have h4: "pipes ?w = hover_pipes (Suc n)"
    using mv(1) by (simp add: world_phase_fields u c)
  have h5: "score ?w = (if Suc n < 200 then 0 else 1)"
    using mv(2) by (auto simp: world_phase_table u c cf)
  have h6: "max_score ?w = 0"
    by (simp add: world_phase_table u cf)
  have h7: "old_pipe ?w = (if Suc n = 0 then None else Some 0)"
    by (simp add: world_phase_fields u c)
  have h8: "dead ?w = (if Suc n < 15 then None else Some False)"
  proof (cases "n mod 15 = 14")
    case True
    have "\<not> Suc n < 15"
    proof
      assume "Suc n < 15"
      then have "n mod 15 = n" "n < 14" by simp_all
      with True show False by simp
    qed
    then show ?thesis
      using True by (simp add: world_phase_fields d1)
  next
    case False
    then have "n \<noteq> 14" by auto
    then have "(n < 15) = (Suc n < 15)" by auto
    then show ?thesis
      using False by (simp add: world_phase_fields d1 cf)
  qed
  have h9: "random_state1 (rand ?w) = hover_script (Suc n) (217 - Suc n)"
    by (simp add: world_phase_fields u c)
  have h10: "random_state0 (rand ?w)
               = (if Suc n = 0 then [9, 4] else if Suc n \<le> 180 then [4] else [])"
    by (auto simp: world_phase_fields u c)
  have h11: "next_id ?w = (if Suc n = 0 then 0 else if Suc n \<le> 180 then 1 else 2)"
    by (auto simp: world_phase_fields u c)
  have h12: "fps_to_next_action ?w = Suc n mod 15"
    by (simp add: world_phase_fields f1)
  have h13: "Suc n < 15 \<longrightarrow> dict ?w = Map.empty \<and> state ?w = (75, 517, False)
                 \<and> previous_state ?w = (75, 517, False) \<and> \<not> previous_action ?w"
  proof
    assume a: "Suc n < 15"
    then have "n mod 15 = n" "n < 14" by simp_all
    then have "n mod 15 \<noteq> 14" by simp
    with k1 have "s1 = ?c" by simp
    then show "dict ?w = Map.empty \<and> state ?w = (75, 517, False)
                 \<and> previous_state ?w = (75, 517, False) \<and> \<not> previous_action ?w"
      using i a by (simp add: world_phase_table before_interval_fields)
  qed
  have "hover_inv (Suc n) ?w"
    unfolding hover_inv_def
    using h1 h2 h3 h4 h5 h6 h7 h8 h9 h10 h11 h12 h13 by blast
  with f show ?thesis
    by blast
qed

lemma hover_init: "hover_inv 0 (main_init test_env (hover_script 0 217))"
  by (simp add: hover_inv_def main_init_def start_life_def test_env_def WIN_HEIGHT_def
        Bird_HEIGHT_def hover_pipes_def)

lemma hover_run:
  "n \<le> 217 \<Longrightarrow>
   \<exists>s. main test_env (hover_script 0 217) (replicate n no_input) = Inr s \<and> hover_inv n s"
proof (induction n)
  case 0
  then show ?case
    using hover_init by (simp add: main_def)
next
  case (Suc n)
  then obtain s where m: "main test_env (hover_script 0 217) (replicate n no_input) = Inr s"
    and h: "hover_inv n s"
    by auto
  have l: "loop_head test_env s = s"
    using h by (simp add: loop_head_def hover_inv_def)
  have n: "n < 217"
    using Suc.prems by simp
  have r: "replicate (Suc n) no_input = replicate n no_input @ [no_input]"
    by (simp add: replicate_append_same)
  show ?case
    unfolding r main_snoc [OF m] l by (rule hover_step [OF h n])
qed

subsection \<open>The interval update, the encoder and the bonus in a run\<close>

text \<open>
  C1. In every run, on every frame: the frame is the fifteenth of its decision interval
  exactly when the frame clock of the life is 14 modulo 15; the interval block of such a
  frame sets the table entry of the previous state and action \<open>k\<close> to
  \<open>Q k + 0.7 * (reward + 0.9 * maxReward - Q k)\<close>, where the reward is \<open>-1000\<close> if this
  interval's check found a collision or the bird out of bounds and \<open>1\<close> otherwise,
  \<open>maxReward\<close> is the larger of the two entries of the current state, and absent entries
  read as \<open>0\<close>; no other entry changes, and on an empty table without death the stored
  value is \<open>0.7\<close>. On every other frame the interval block leaves the table as it is.
  Neither block of the frame raises, and the run goes on with the state they produce.
\<close>

theorem interval_td_update:
  assumes "main E g0 inps = Inr s"
  shows "(let t = loop_head E s;
              c = before_interval E t;
              k = (previous_state t, previous_action t);
              dd = ((\<exists>p \<in> set (pipes c). collides_with E (ticks_interval inp) (bird c) p)
                     \<or> out_of_bounds (bird c));
              reward = (if dd then - 1000 else 1);
              max_reward = max (dict_get (dict t) (state t, True) 0)
                               (dict_get (dict t) (state t, False) 0)
          in \<exists>s1 s2. interval_phase E inp c = Inr s1 \<and> bonus_phase s1 = Inr s2
               \<and> main E g0 (inps @ [inp])
                   = Inr (world_phase (death_phase E inp (event_phase inp s2)))
               \<and> (frame_clock t mod 15 = 14 \<longrightarrow>
                    dead s1 = Some dd
                  \<and> dict s1 = (dict t)(k \<mapsto> dict_get (dict t) k 0
                                 + 0.7 * (reward + 0.9 * max_reward - dict_get (dict t) k 0))
                  \<and> (dict t = Map.empty \<and> \<not> dd \<longrightarrow> dict s1 k = Some 0.7))
               \<and> (frame_clock t mod 15 \<noteq> 14 \<longrightarrow> dict s1 = dict t))"
proof -
  let ?t = "loop_head E s"
  let ?c = "before_interval E ?t"
  from run_interval [of E g0 inps] assms have s: "safe s" "interval_inv s"
    by auto
  then have t: "safe ?t" "interval_inv ?t"
    by (simp_all add: loop_head_safe loop_head_interval)
  from frame_steps [OF t(1), of E inp] obtain s1 s2 where
    i: "interval_phase E inp ?c = Inr s1" and b: "bonus_phase s1 = Inr s2"
    and f: "frame E inp ?t = Inr (world_phase (death_phase E inp (event_phase inp s2)))"
    by blast
  have m: "main E g0 (inps @ [inp]) = Inr (world_phase (death_phase E inp (event_phase inp s2)))"
    by (simp add: main_snoc [OF assms] f)
  note due = interval_due [OF t(2), of E]
  have skip: "dict s1 = dict ?t" if "frame_clock ?t mod 15 \<noteq> 14"
  proof -
    from that due have "fps_to_next_action ?c \<noteq> 15" by simp
    from interval_phase_skip [OF this, of E inp] i have "s1 = ?c" by simp
    then show ?thesis by (simp add: before_interval_fields)
  qed
  have upd: "(let k = (previous_state ?c, previous_action ?c);
              dd = ((\<exists>p \<in> set (pipes ?c). collides_with E (ticks_interval inp) (bird ?c) p)
                     \<or> out_of_bounds (bird ?c));
              reward = (if dd then - 1000 else 1);
              max_reward = max (dict_get (dict ?c) (state ?c, True) 0)
                               (dict_get (dict ?c) (state ?c, False) 0)
          in dead s1 = Some dd
           \<and> dict s1 = (dict ?c)(k \<mapsto> dict_get (dict ?c) k 0
                           + 0.7 * (reward + 0.9 * max_reward - dict_get (dict ?c) k 0))
           \<and> (dict ?c = Map.empty \<and> \<not> dd \<longrightarrow> dict s1 k = Some 0.7))"
    if "frame_clock ?t mod 15 = 14"
  proof -
    from that due have "fps_to_next_action ?c = 15" by simp
    then show ?thesis
      using i
      by (auto simp: interval_phase_def Let_def td_update_def get_max_reward_max dict_get_def
           split: list.splits)
  qed
  show ?thesis
    unfolding Let_def
    apply (rule exI [of _ s1], rule exI [of _ s2])
    using i b m skip upd
    by (simp add: Let_def before_interval_fields dict_get_def)
qed

theorem interval_td_update_witness:
  "\<exists>s s1. main test_env (hover_script 0 217) (replicate 14 no_input) = Inr s
     \<and> frame_clock (loop_head test_env s) mod 15 = 14
     \<and> interval_phase test_env no_input (before_interval test_env (loop_head test_env s)) = Inr s1
     \<and> dead s1 = Some False
     \<and> dict s1 = [((75, 517, False), False) \<mapsto> 0.7]"
proof -
  from hover_run [of 14] obtain s where
    m: "main test_env (hover_script 0 217) (replicate 14 no_input) = Inr s"
    and h: "hover_inv 14 s"
    by auto
  have l: "loop_head test_env s = s"
    using h by (simp add: loop_head_def hover_inv_def)
  have a: "\<not> ((\<exists>p \<in> set (pipes (before_interval test_env s)).
               collides_with test_env (ticks_interval no_input) (bird (before_interval test_env s)) p)
            \<or> out_of_bounds (bird (before_interval test_env s)))"
    by (rule hover_alive [OF h]) simp
  have t: "frame_clock s = 14" "dict s = Map.empty" "previous_state s = (75, 517, False)"
    "\<not> previous_action s" "state s = (75, 517, False)"
    using h by (simp_all add: hover_inv_def)
  from interval_td_update [OF m, of no_input] obtain s1 where
    i: "interval_phase test_env no_input (before_interval test_env s) = Inr s1"
    and u: "dead s1 = Some False" "dict s1 = [((75, 517, False), False) \<mapsto> 0.7]"
    using a t l by (auto simp: Let_def dict_get_def)
  show ?thesis
    using m i u t l by auto
qed

lemma py_int_far: "1 / 2 < \<bar>of_int (py_int r) - r\<bar> \<Longrightarrow> py_int r \<noteq> round r"
  using of_int_round_abs_le [of r] by auto

text \<open>
  C4, amended. In every run, on the fifteenth frame of every decision interval (the frame
  clock of the life is 14 modulo 15) the new state is the triple of the two raw offsets to
  the front pipe truncated toward zero and the death flag: each integer offset is no larger
  in absolute value than the raw offset and differs from it by less than 1, and it is the
  nearest integer whenever it differs from the raw offset by less than 1/2, and not the
  nearest integer whenever it differs by more than 1/2. On every other frame the state is
  left as it is.
\<close>

theorem encoder_truncates:
  assumes "main E g0 inps = Inr s"
  shows "(let t = loop_head E s;
              c = before_interval E t;
              dd = ((\<exists>p \<in> set (pipes c). collides_with E (ticks_interval inp) (bird c) p)
                     \<or> out_of_bounds (bird c))
          in \<exists>s1 s2 p0 ps. pipes c = p0 # ps
               \<and> interval_phase E inp c = Inr s1 \<and> bonus_phase s1 = Inr s2
               \<and> main E g0 (inps @ [inp])
                   = Inr (world_phase (death_phase E inp (event_phase inp s2)))
               \<and> (frame_clock t mod 15 = 14 \<longrightarrow>
                    (let rv = bird_y (bird c) - of_int (512 - bottom_pieces p0 * 32 - 27);
                         rh = pipe_x p0 - 50
                     in state s1 = (py_int rv, py_int rh, dd)
                      \<and> \<bar>of_int (py_int rv)\<bar> \<le> \<bar>rv\<bar> \<and> \<bar>of_int (py_int rv) - rv\<bar> < 1
                      \<and> (\<bar>of_int (py_int rv) - rv\<bar> < 1 / 2 \<longrightarrow> py_int rv = round rv)
                      \<and> (1 / 2 < \<bar>of_int (py_int rv) - rv\<bar> \<longrightarrow> py_int rv \<noteq> round rv)
                      \<and> \<bar>of_int (py_int rh)\<bar> \<le> \<bar>rh\<bar> \<and> \<bar>of_int (py_int rh) - rh\<bar> < 1
                      \<and> (\<bar>of_int (py_int rh) - rh\<bar> < 1 / 2 \<longrightarrow> py_int rh = round rh)
                      \<and> (1 / 2 < \<bar>of_int (py_int rh) - rh\<bar> \<longrightarrow> py_int rh \<noteq> round rh)))
               \<and> (frame_clock t mod 15 \<noteq> 14 \<longrightarrow> state s1 = state t))"
proof -
  let ?t = "loop_head E s"
  let ?c = "before_interval E ?t"
  from run_interval [of E g0 inps] assms have s: "safe s" "interval_inv s"
    by auto
  then have t: "safe ?t" "interval_inv ?t"
    by (simp_all add: loop_head_safe loop_head_interval)
  from frame_steps [OF t(1), of E inp] obtain s1 s2 where
    i: "interval_phase E inp ?c = Inr s1" and b: "bonus_phase s1 = Inr s2"
    and f: "frame E inp ?t = Inr (world_phase (death_phase E inp (event_phase inp s2)))"
    by blast
  have m: "main E g0 (inps @ [inp]) = Inr (world_phase (death_phase E inp (event_phase inp s2)))"
    by (simp add: main_snoc [OF assms] f)
  from b obtain p0 ps where p: "pipes ?c = p0 # ps"
    using interval_phase_fields(2) [OF i]
    by (cases "pipes ?c") (auto simp: bonus_phase_def split: option.splits)
  note due = interval_due [OF t(2), of E]
  have skip: "state s1 = state ?t" if "frame_clock ?t mod 15 \<noteq> 14"
  proof -
    from that due have "fps_to_next_action ?c \<noteq> 15" by simp
    from interval_phase_skip [OF this, of E inp] i have "s1 = ?c" by simp
    then show ?thesis by (simp add: before_interval_fields)
  qed
  have enc: "state s1 = (py_int (bird_y (bird ?c) - of_int (512 - bottom_pieces p0 * 32 - 27)),
                py_int (pipe_x p0 - 50),
                (\<exists>p \<in> set (pipes ?c). collides_with E (ticks_interval inp) (bird ?c) p)
                     \<or> out_of_bounds (bird ?c))"
    if "frame_clock ?t mod 15 = 14"
  proof -
    from that due have "fps_to_next_action ?c = 15" by simp
    then show ?thesis
      using i p by (auto simp: interval_phase_def Let_def encode_state_def)
  qed
  show ?thesis
    unfolding Let_def
    apply (rule exI [of _ s1], rule exI [of _ s2], rule exI [of _ p0], rule exI [of _ ps])
    using i b m p skip enc
      py_int_trunc [of "bird_y (bird ?c) - of_int (512 - bottom_pieces p0 * 32 - 27)"]
      py_int_trunc [of "pipe_x p0 - 50"]
      py_int_round [of "bird_y (bird ?c) - of_int (512 - bottom_pieces p0 * 32 - 27)"]
      py_int_round [of "pipe_x p0 - 50"]
      py_int_far [of "bird_y (bird ?c) - of_int (512 - bottom_pieces p0 * 32 - 27)"]
      py_int_far [of "pipe_x p0 - 50"]
    by simp
qed

theorem encoder_truncates_witness:
  "\<exists>s s1. main test_env (hover_script 0 217) (replicate 29 no_input) = Inr s
     \<and> frame_clock (loop_head test_env s) mod 15 = 14
     \<and> interval_phase test_env no_input (before_interval test_env (loop_head test_env s)) = Inr s1
     \<and> pipes (before_interval test_env (loop_head test_env s)) = [hover_p0 29]
     \<and> 13 / 2 < bird_y (bird (before_interval test_env (loop_head test_env s))) - 165
     \<and> bird_y (bird (before_interval test_env (loop_head test_env s))) - 165 < 7
     \<and> state s1 = (6, 430, False)"
proof -
  from hover_run [of 29] obtain s where
    m: "main test_env (hover_script 0 217) (replicate 29 no_input) = Inr s"
    and h: "hover_inv 29 s"
    by auto
  let ?c = "before_interval test_env s"
  have l: "loop_head test_env s = s"
    using h by (simp add: loop_head_def hover_inv_def)
  have a: "\<not> ((\<exists>p \<in> set (pipes ?c).
               collides_with test_env (ticks_interval no_input) (bird ?c) p)
            \<or> out_of_bounds (bird ?c))"
    by (rule hover_alive [OF h]) simp
  have t: "frame_clock s = 29"
    using h by (simp add: hover_inv_def)
  have pc: "pipes ?c = [hover_p0 29]"
    using hover_before_interval(1) [OF h] by (simp add: hover_queue_def)
  have bc: "bird ?c = bird29"
    using hover_before_interval(2) [OF h] by (simp add: hover_bird_29)
  have rv: "13 / 2 < bird_y bird29 - 165" "bird_y bird29 - 165 < 7"
    using climb_sum_bounds by (simp_all add: bird29_y)
  have "\<lfloor>bird_y bird29 - 165\<rfloor> = 6"
    using rv by (intro floor_unique) simp_all
  then have v: "py_int (bird_y bird29 - 165) = 6"
    using rv by (simp add: py_int_def)
  have hz: "py_int 430 = 430"
    by (simp add: py_int_def)
  from encoder_truncates [OF m, of no_input] obtain s1 where
    i: "interval_phase test_env no_input ?c = Inr s1"
    and st: "state s1 = (py_int (bird_y bird29 - 165), py_int 430, False)"
    using a t l pc bc by (auto simp: Let_def hover_p0_def)
  show ?thesis
    using m i st t l pc bc rv v hz by auto
qed

text \<open>
  C6. In every run, on every frame, at the bonus block: \<open>early_state\<close> and
  \<open>early_action\<close> are the pair recorded two decision intervals earlier (the last but one
  of the history of the life); the remembered pipe differs from the front of the queue
  exactly when it has left the queue. When it differs, the last interval check found the
  bird alive and the score exceeds the best score, the block adds exactly \<open>100\<close> to the
  entry of that pair (read as \<open>0\<close> when absent), changes no other entry and remembers the
  new front, so that the block run again does nothing and the frame ends with the new front
  remembered. Otherwise the block changes nothing.
\<close>

theorem bonus_adds_100:
  assumes "main E g0 inps = Inr s"
  shows "(let t = loop_head E s;
              c = before_interval E t;
              h = history E g0 (inps @ [inp]);
              k = h ! (length h - 2)
          in \<exists>s1 s2 op p0 ps.
               interval_phase E inp c = Inr s1 \<and> bonus_phase s1 = Inr s2
             \<and> main E g0 (inps @ [inp])
                 = Inr (world_phase (death_phase E inp (event_phase inp s2)))
             \<and> 2 \<le> length h \<and> (early_state s1, early_action s1) = k
             \<and> old_pipe s1 = Some op \<and> pipes s1 = p0 # ps
             \<and> (op \<noteq> pipe_id p0 \<longleftrightarrow> op \<notin> pipe_id ` set (pipes s1))
             \<and> (op \<noteq> pipe_id p0 \<and> dead s1 = Some False \<and> score s1 > max_score s1 \<longrightarrow>
                  dict_get (dict s2) k 0 = dict_get (dict s1) k 0 + 100
                \<and> (\<forall>k'. k' \<noteq> k \<longrightarrow> dict s2 k' = dict s1 k')
                \<and> old_pipe s2 = Some (pipe_id p0)
                \<and> bonus_phase s2 = Inr s2
                \<and> old_pipe (world_phase (death_phase E inp (event_phase inp s2)))
                    = Some (pipe_id p0))
             \<and> (\<not> (op \<noteq> pipe_id p0 \<and> dead s1 = Some False \<and> score s1 > max_score s1) \<longrightarrow>
                  s2 = s1))"
proof -
  let ?t = "loop_head E s"
  let ?c = "before_interval E ?t"
  let ?h = "history E g0 (inps @ [inp])"
  let ?k = "?h ! (length ?h - 2)"
  from run_invariants [of E g0 inps] assms have
    s: "safe s" "interval_inv s" "queue_inv s" "old_front s"
    by auto
  note t = loop_head_inv [OF s, of E]
  from frame_steps [OF t(1), of E inp] obtain s1 s2 where
    i: "interval_phase E inp ?c = Inr s1" and b: "bonus_phase s1 = Inr s2"
    and f: "frame E inp ?t = Inr (world_phase (death_phase E inp (event_phase inp s2)))"
    by blast
  have m: "main E g0 (inps @ [inp]) = Inr (world_phase (death_phase E inp (event_phase inp s2)))"
    by (simp add: main_snoc [OF assms] f)
  have r: "run E inps (main_init E g0) = Inr s"
    using assms by (simp add: main_def)
  have h: "?h = (if frame_clock ?t mod 15 = 14
                 then (if done_flag s then initial_pairs else history E g0 inps)
                        @ [(state ?c, action ?c)]
                 else (if done_flag s then initial_pairs else history E g0 inps))"
    unfolding history_def by (simp add: recorded_snoc [OF r] Let_def)
  have "pairs_inv ?t (if done_flag s then initial_pairs else history E g0 inps)"
    by (rule pairs_loop_head [OF main_pairs [OF assms]])
  from pairs_after_interval [OF this t(2) i] have p1: "pairs_inv s1 ?h"
    by (simp only: h)
  then have len: "2 \<le> length ?h" and early: "(early_state s1, early_action s1) = ?k"
    by (simp_all add: pairs_inv_def)
  from before_interval_old [OF t(4) t(1), of E] obtain op where
    op: "old_pipe s1 = Some op" "op \<le> pipe_id (hd (pipes s1))"
    by (auto simp: interval_phase_fields [OF i])
  from b op(1) obtain p0 ps where p: "pipes s1 = p0 # ps"
    by (cases "pipes s1") (auto simp: bonus_phase_def)
  have srt: "sorted_wrt (<) (map pipe_id (pipes s1))"
    using before_interval_queue(3) [OF t(3), of E] by (simp add: interval_phase_fields [OF i])
  have gone: "op \<noteq> pipe_id p0 \<longleftrightarrow> op \<notin> pipe_id ` set (pipes s1)"
  proof
    assume "op \<noteq> pipe_id p0"
    with op(2) p have "op < pipe_id p0" by simp
    moreover have "pipe_id p0 \<le> pipe_id q" if "q \<in> set (pipes s1)" for q
      using sorted_hd_le [OF srt that] p by simp
    ultimately show "op \<notin> pipe_id ` set (pipes s1)"
      by force
  next
    assume "op \<notin> pipe_id ` set (pipes s1)"
    then show "op \<noteq> pipe_id p0"
      using p by auto
  qed
  have fire: "dict_get (dict s2) ?k 0 = dict_get (dict s1) ?k 0 + 100
                \<and> (\<forall>k'. k' \<noteq> ?k \<longrightarrow> dict s2 k' = dict s1 k')
                \<and> old_pipe s2 = Some (pipe_id p0)
                \<and> bonus_phase s2 = Inr s2
                \<and> old_pipe (world_phase (death_phase E inp (event_phase inp s2)))
                    = Some (pipe_id p0)"
    if c: "op \<noteq> pipe_id p0" "dead s1 = Some False" "score s1 > max_score s1"
  proof -
    from bonus_phase_fires [OF op(1) p c] b have
      s2: "s2 = s1\<lparr>dict := (dict s1)((early_state s1, early_action s1) \<mapsto>
                       dict_get (dict s1) (early_state s1, early_action s1) 0 + 100),
                   old_pipe := Some (pipe_id p0)\<rparr>"
      by simp
    show ?thesis
      unfolding s2 using p early
      by (simp add: dict_get_def bonus_phase_def world_phase_fields late_phase_fields)
  qed
  have idle: "s2 = s1"
    if "\<not> (op \<noteq> pipe_id p0 \<and> dead s1 = Some False \<and> score s1 > max_score s1)"
    by (rule bonus_phase_idle [OF b op(1) p that])
  show ?thesis
    unfolding Let_def
    apply (rule exI [of _ s1], rule exI [of _ s2], rule exI [of _ op], rule exI [of _ p0],
           rule exI [of _ ps])
    using i b m len early op(1) p gone fire idle
    by blast
qed

theorem bonus_adds_100_witness:
  "\<exists>s s1 s2. main test_env (hover_script 0 217) (replicate 217 no_input) = Inr s
     \<and> interval_phase test_env no_input (before_interval test_env (loop_head test_env s)) = Inr s1
     \<and> bonus_phase s1 = Inr s2
     \<and> old_pipe s1 = Some 0 \<and> map pipe_id (pipes s1) = [1] \<and> dead s1 = Some False
     \<and> score s1 = 1 \<and> max_score s1 = 0
     \<and> dict_get (dict s2) (early_state s1, early_action s1) 0
         = dict_get (dict s1) (early_state s1, early_action s1) 0 + 100
     \<and> old_pipe s2 = Some 1"
proof -
  from hover_run [of 217] obtain s where
    m: "main test_env (hover_script 0 217) (replicate 217 no_input) = Inr s"
    and h: "hover_inv 217 s"
    by auto
  let ?c = "before_interval test_env s"
  have l: "loop_head test_env s = s"
    using h by (simp add: loop_head_def hover_inv_def)
  have c: "pipes ?c = [hover_p1 217]" "old_pipe ?c = Some 0" "dead ?c = Some False"
    "score ?c = 1" "max_score ?c = 0" "fps_to_next_action ?c \<noteq> 15"
    using h
    by (simp_all add: hover_inv_def before_interval_fields before_interval_def
          spawn_phase_pipes spawn_phase_fields choose_phase_fields hover_pipes_def)
  have sk: "interval_phase test_env no_input ?c = Inr ?c"
    by (rule interval_phase_skip [OF c(6)])
  from bonus_adds_100 [OF m, of no_input] obtain s2 where
    b: "bonus_phase ?c = Inr s2"
    and d: "dict_get (dict s2) (early_state ?c, early_action ?c) 0
         = dict_get (dict ?c) (early_state ?c, early_action ?c) 0 + 100"
    and o: "old_pipe s2 = Some 1"
    unfolding Let_def l sk using c by (auto simp: hover_p1_def)
  show ?thesis
    using m sk b d o c l by (auto simp: hover_p1_def)
qed

end
